theory Spec2Isabelle
  imports Main
begin

section \<open>Rendered columns of a horizontally scrolling table\<close>

text \<open>
  A shallow embedding of \<^verbatim>\<open>src/reducers/computeRenderedColumns.js\<close>: the
  range of columns to render for a scroll anchor, the pixel offset of each of
  them and the rendering slot each one is given.  Column indices and pixel
  quantities are integers; a slot is a natural number.  The functions of the
  source mutate a cloned state; here each of them returns the updated state.
\<close>

subsection \<open>Collaborators of the reducer\<close>

text \<open>
  The reducer works on three collaborators whose code is not part of the source
  under study: the Offset Store (\<^verbatim>\<open>columnOffsetIntervalTree\<close>), the Slot
  Allocator (\<^verbatim>\<open>columnBufferSet\<close>) and the Width Oracle (\<^verbatim>\<open>columnWidths\<close>
  and \<^verbatim>\<open>updateColumnWidth\<close>).  Each of them is modelled from the interface
  the spec gives for it.
\<close>

text \<open>
  Modelled from the spec: the state of the Offset Store, missing from the source.
  It holds one width for each column index.
\<close>

type_synonym offsetStore = "int \<Rightarrow> int"

text \<open>
  Modelled from the spec: \<^verbatim>\<open>get\<close> of the Offset Store, missing from the source.
  It returns the width stored for an index.
\<close>

definition treeGet :: "offsetStore \<Rightarrow> int \<Rightarrow> int" where
  "treeGet tree i = tree i"

text \<open>
  Modelled from the spec: the point update of the Offset Store, missing from the
  source.  It records a width for an index.
\<close>

definition treeSet :: "offsetStore \<Rightarrow> int \<Rightarrow> int \<Rightarrow> offsetStore" where
  "treeSet tree i w = tree(i := w)"

text \<open>
  Modelled from the spec: \<^verbatim>\<open>sumUntil\<close> of the Offset Store, missing from the
  source.  It adds the stored widths of all column indices, counted from \<open>0\<close>,
  that lie below the given index.
\<close>

fun sumBelow :: "offsetStore \<Rightarrow> nat \<Rightarrow> int" where
  "sumBelow tree 0 = 0"
| "sumBelow tree (Suc k) = sumBelow tree k + treeGet tree (int k)"

definition sumUntil :: "offsetStore \<Rightarrow> int \<Rightarrow> int" where
  "sumUntil tree i = sumBelow tree (nat i)"

text \<open>
  Modelled from the spec: the state of the Slot Allocator, missing from the source.
  The allocator maps tracked column indices to rendering slots.  The model keeps
  the tracked columns in a list, the column at position \<open>p\<close> owning slot \<open>p\<close>.
\<close>

type_synonym bufferSet = "int list"

text \<open>
  Modelled from the spec: \<^verbatim>\<open>getValuePosition\<close> of the Slot Allocator, missing
  from the source.  It returns the slot of a tracked column and nothing for a
  column that is not tracked.
\<close>

fun getValuePosition :: "bufferSet \<Rightarrow> int \<Rightarrow> nat option" where
  "getValuePosition [] v = None"
| "getValuePosition (b # bs) v =
     (if b = v then Some 0 else map_option Suc (getValuePosition bs v))"

text \<open>
  Modelled from the spec: \<^verbatim>\<open>getSize\<close> of the Slot Allocator, missing from the
  source.  It returns the tracked count.
\<close>

definition getSize :: "bufferSet \<Rightarrow> nat" where
  "getSize bs = length bs"

text \<open>
  Modelled from the spec: \<^verbatim>\<open>getNewPositionForValue\<close> of the Slot Allocator,
  missing from the source.  It allocates a fresh slot, the next position, for the
  column.
\<close>

definition getNewPositionForValue :: "bufferSet \<Rightarrow> int \<Rightarrow> nat \<times> bufferSet" where
  "getNewPositionForValue bs v = (length bs, bs @ [v])"

text \<open>
  Modelled from the spec: \<^verbatim>\<open>replaceFurthestValuePosition\<close> of the Slot
  Allocator, missing from the source.  It evicts the tracked column that lies
  furthest outside the closed window from \<open>lowValue\<close> to \<open>highValue\<close> and hands its
  slot to the new column; when no tracked column lies outside the window there is
  no candidate.  The furthest column outside the window is the smallest or the
  largest tracked column.  The spec leaves a tie between the two open; the model
  takes the largest.
\<close>

fun replaceFurthestValuePosition ::
  "bufferSet \<Rightarrow> int \<Rightarrow> int \<Rightarrow> int \<Rightarrow> nat option \<times> bufferSet" where
  "replaceFurthestValuePosition [] lowValue highValue newValue = (None, [])"
| "replaceFurthestValuePosition (b # bs) lowValue highValue newValue =
     (let minValue = fold min bs b;
          maxValue = fold max bs b
      in if minValue \<ge> lowValue \<and> maxValue \<le> highValue then (None, b # bs)
         else
           let valueToReplace =
                 (if lowValue - minValue > maxValue - highValue then minValue else maxValue)
           in case getValuePosition (b # bs) valueToReplace of
                None \<Rightarrow> (None, b # bs)
              | Some position \<Rightarrow> (Some position, (b # bs)[position := newValue]))"

text \<open>
  \<^verbatim>\<open>clamp\<close> of the lodash library, as that library defines it for numbers:
  first the upper bound is applied, then the lower one.
\<close>

definition clamp :: "int \<Rightarrow> int \<Rightarrow> int \<Rightarrow> int" where
  "clamp number lower upper =
     (let number = (if number \<le> upper then number else upper)
      in if number \<ge> lower then number else lower)"

subsection \<open>Data model\<close>

text \<open>
  The part of the table state that the reducer reads and writes.
  \<^verbatim>\<open>columnsToRender\<close> is a JavaScript array indexed by slot; a hole of the array
  is \<open>None\<close>.  \<^verbatim>\<open>columnOffsets\<close> is an object keyed by column index.

  Modelled from the spec: the selector \<^verbatim>\<open>columnWidths(state)\<close>, the Width
  Oracle, is missing from the source.  What it derives from the state, the
  available scroll width, the scrollable columns and the maximal scroll offset,
  is kept in the last three fields.  A scrollable column is represented by the
  width that measuring it yields.
\<close>

record tableState =
  scrollX :: int
  scrolling :: bool
  firstColumnIndex :: int
  endColumnIndex :: int
  firstColumnOffset :: int
  columnOffsets :: "int \<rightharpoonup> int"
  columnsToRender :: "int option list"
  columnOffsetIntervalTree :: offsetStore
  columnBufferSet :: bufferSet
  availableScrollWidth :: int
  scrollableColumns :: "int list"
  maxScrollX :: int

text \<open>
  The scroll anchor.  An index that is \<^verbatim>\<open>undefined\<close> in the source is \<open>None\<close>.
  \<^verbatim>\<open>firstOffset\<close> is a number; the source uses it only when it walks forward.
\<close>

record columnAnchor =
  firstIndex :: "int option"
  firstOffset :: int
  lastIndex :: "int option"

record columnRange =
  endBufferCol :: int
  endViewportCol :: int
  firstBufferCol :: int
  firstViewportCol :: int

text \<open>
  The source raises no exception.  Where it would compute with \<^verbatim>\<open>undefined\<close>
  and store \<^verbatim>\<open>NaN\<close> (an anchor with neither index, or a viewport column that
  has no recorded offset), the model returns \<open>Inl NotANumber\<close>.
\<close>

datatype error = NotANumber

text \<open>
  Modelled from the spec: \<^verbatim>\<open>updateColumnWidth\<close>, imported by the source and
  missing from it.  It measures the width of one column, records the width in the
  Offset Store and returns it.  The source calls it for indices from \<open>0\<close> up to,
  not including, the column count only.
\<close>

definition updateColumnWidth :: "tableState \<Rightarrow> int \<Rightarrow> tableState \<times> int" where
  "updateColumnWidth state columnIdx =
     (let w = scrollableColumns state ! nat columnIdx
      in (state\<lparr>columnOffsetIntervalTree :=
                  treeSet (columnOffsetIntervalTree state) columnIdx w\<rparr>, w))"

subsection \<open>The range of columns to render\<close>

definition bufferColumnCount :: int where
  "bufferColumnCount = 0"

text \<open>
  The loop that walks the viewport until its width is filled.  \<open>backward\<close> stands
  for \<^verbatim>\<open>step = -1\<close>, its negation for \<^verbatim>\<open>step = 1\<close>.  The result is the state
  with the measured widths recorded, the last index touched and the accumulated
  width.
\<close>

function walkViewport ::
  "tableState \<Rightarrow> int \<Rightarrow> int \<Rightarrow> bool \<Rightarrow> int \<Rightarrow> int \<Rightarrow> int \<Rightarrow> tableState \<times> int \<times> int" where
  "walkViewport state columnCount availWidth backward columnIdx endIdy totalWidth =
     (if columnIdx < columnCount \<and> columnIdx \<ge> 0 \<and> totalWidth < availWidth then
        (case updateColumnWidth state columnIdx of
           (state', w) \<Rightarrow>
             walkViewport state' columnCount availWidth backward
               (columnIdx + (if backward then - 1 else 1)) columnIdx (totalWidth + w))
      else (state, endIdy, totalWidth))"
  by pat_completeness auto
termination
  by (relation "measure (\<lambda>(state, columnCount, availWidth, backward, columnIdx, endIdy, totalWidth).
        if backward then nat (columnIdx + 1) else nat (columnCount - columnIdx))") auto

declare walkViewport.simps [simp del]

text \<open>The two loops that measure the leading and the trailing buffer columns.\<close>

function walkBuffer :: "tableState \<Rightarrow> int \<Rightarrow> int \<Rightarrow> tableState" where
  "walkBuffer state columnIdx bound =
     (if columnIdx < bound then
        walkBuffer (fst (updateColumnWidth state columnIdx)) (columnIdx + 1) bound
      else state)"
  by pat_completeness auto
termination
  by (relation "measure (\<lambda>(state, columnIdx, bound). nat (bound - columnIdx))") auto

declare walkBuffer.simps [simp del]

definition calculateRenderedColumnRange ::
  "tableState \<Rightarrow> columnAnchor \<Rightarrow> error + tableState \<times> columnRange" where
  "calculateRenderedColumnRange state anchor =
     (let availWidth = availableScrollWidth state;
          columnCount = int (length (scrollableColumns state))
      in if availWidth = 0 \<or> columnCount = 0 then
           Inr (state\<lparr>firstColumnIndex := 0, endColumnIndex := 0, firstColumnOffset := 0\<rparr>,
                \<lparr>endBufferCol = 0, endViewportCol = 0, firstBufferCol = 0, firstViewportCol = 0\<rparr>)
         else
           let lastIdx =
                 (if (case firstIndex anchor of None \<Rightarrow> False | Some i \<Rightarrow> i \<ge> columnCount) \<or>
                     (case lastIndex anchor of None \<Rightarrow> False | Some i \<Rightarrow> i \<ge> columnCount)
                  then Some (columnCount - 1) else lastIndex anchor);
               backward = (lastIdx \<noteq> None);
               start = (case lastIdx of Some i \<Rightarrow> Some i | None \<Rightarrow> firstIndex anchor)
           in case start of
                None \<Rightarrow> Inl NotANumber
              | Some startIdy \<Rightarrow>
                 (case walkViewport state columnCount availWidth backward startIdy startIdy
                         (if backward then 0 else firstOffset anchor) of
                    (state1, endIdy, totalWidth) \<Rightarrow>
                      let firstViewport = min startIdy endIdy;
                          firstBuffer = max (firstViewport - bufferColumnCount) 0;
                          state2 = walkBuffer state1 firstBuffer firstViewport;
                          endViewport = max startIdy endIdy + 1;
                          endBuffer = min (endViewport + bufferColumnCount) columnCount;
                          state3 = walkBuffer state2 endViewport endBuffer;
                          offset = (if backward then min (availWidth - totalWidth) 0
                                    else firstOffset anchor)
                      in Inr (state3\<lparr>firstColumnIndex := firstViewport,
                                     endColumnIndex := endViewport,
                                     firstColumnOffset := offset\<rparr>,
                              \<lparr>endBufferCol = endBuffer, endViewportCol = endViewport,
                               firstBufferCol = firstBuffer, firstViewportCol = firstViewport\<rparr>)))"

subsection \<open>Offsets and slots\<close>

text \<open>Writing a JavaScript array at an index extends it with holes.\<close>

definition arraySet :: "'a option list \<Rightarrow> nat \<Rightarrow> 'a \<Rightarrow> 'a option list" where
  "arraySet xs p v =
     (if p < length xs then xs[p := Some v]
      else xs @ replicate (p - length xs) None @ [Some v])"

definition addColumnToBuffer ::
  "int \<Rightarrow> bufferSet \<Rightarrow> int \<Rightarrow> int \<Rightarrow> int \<Rightarrow> nat \<times> bufferSet" where
  "addColumnToBuffer columnIdx bs startRange endRange maxBufferSize =
     (case (case getValuePosition bs columnIdx of
              None \<Rightarrow>
                (if int (getSize bs) \<ge> maxBufferSize
                 then replaceFurthestValuePosition bs startRange (endRange - 1) columnIdx
                 else (None, bs))
            | Some position \<Rightarrow> (Some position, bs)) of
        (None, bs') \<Rightarrow> getNewPositionForValue bs' columnIdx
      | (Some position, bs') \<Rightarrow> (position, bs'))"

text \<open>
  The loop over the window: the buffer set, the running offset, the array of
  columns and the object of offsets are its variables.
\<close>

function offsetsLoop ::
  "offsetStore \<Rightarrow> int \<Rightarrow> int \<Rightarrow> int \<Rightarrow> int \<Rightarrow> bufferSet \<Rightarrow> int \<Rightarrow> int option list \<Rightarrow>
   (int \<rightharpoonup> int) \<Rightarrow> bufferSet \<times> int option list \<times> (int \<rightharpoonup> int)" where
  "offsetsLoop tree startIdx endIdx count columnIdx bs runningOffset columns offsets =
     (if columnIdx < endIdx then
        (case addColumnToBuffer columnIdx bs startIdx endIdx count of
           (columnPosition, bs') \<Rightarrow>
             offsetsLoop tree startIdx endIdx count (columnIdx + 1) bs'
               (runningOffset + treeGet tree columnIdx)
               (arraySet columns columnPosition columnIdx)
               (offsets(columnIdx \<mapsto> runningOffset)))
      else (bs, columns, offsets))"
  by pat_completeness auto
termination
  by (relation "measure (\<lambda>(tree, startIdx, endIdx, count, columnIdx, bs, runningOffset,
        columns, offsets). nat (endIdx - columnIdx))") auto

declare offsetsLoop.simps [simp del]

definition computeRenderedColumnOffsets ::
  "tableState \<Rightarrow> columnRange \<Rightarrow> bool \<Rightarrow> tableState" where
  "computeRenderedColumnOffsets state columnRange viewportOnly =
     (let renderedColumnsCount = endBufferCol columnRange - firstBufferCol columnRange
      in if renderedColumnsCount = 0 then
           state\<lparr>columnOffsets := Map.empty, columnsToRender := []\<rparr>
         else
           let startIdx = (if viewportOnly then firstViewportCol columnRange else firstBufferCol columnRange);
               endIdx = (if viewportOnly then endViewportCol columnRange else endBufferCol columnRange);
               tree = columnOffsetIntervalTree state
           in case offsetsLoop tree startIdx endIdx renderedColumnsCount startIdx
                     (columnBufferSet state) (sumUntil tree startIdx) [] Map.empty of
                (bs, columns, offsets) \<Rightarrow>
                  state\<lparr>columnBufferSet := bs, columnsToRender := columns,
                        columnOffsets := offsets\<rparr>)"

subsection \<open>The reducer\<close>

definition computeRenderedColumns :: "tableState \<Rightarrow> columnAnchor \<Rightarrow> error + tableState" where
  "computeRenderedColumns state anchor =
     (case calculateRenderedColumnRange state anchor of
        Inl e \<Rightarrow> Inl e
      | Inr (newState, columnRange) \<Rightarrow>
          let newState = computeRenderedColumnOffsets newState columnRange (scrolling newState)
          in if firstViewportCol columnRange \<noteq> endViewportCol columnRange then
               (case columnOffsets newState (firstViewportCol columnRange) of
                  None \<Rightarrow> Inl NotANumber
                | Some off \<Rightarrow>
                    Inr (newState\<lparr>scrollX :=
                           clamp (off - firstColumnOffset newState) 0 (maxScrollX state)\<rparr>))
             else Inr (newState\<lparr>scrollX := clamp (scrollX state) 0 (maxScrollX state)\<rparr>))"

subsection \<open>Notions used to state the properties\<close>

text \<open>
  An anchor is well formed when it names at least one index and no index it
  names is negative.
\<close>

definition anchorWellFormed :: "columnAnchor \<Rightarrow> bool" where
  "anchorWellFormed anchor \<longleftrightarrow>
     (case firstIndex anchor of None \<Rightarrow> True | Some i \<Rightarrow> 0 \<le> i) \<and>
     (case lastIndex anchor of None \<Rightarrow> True | Some i \<Rightarrow> 0 \<le> i) \<and>
     (firstIndex anchor \<noteq> None \<or> lastIndex anchor \<noteq> None)"

text \<open>
  The anchor's \<^verbatim>\<open>lastIndex\<close> after the bounds check of the source: an index at or
  beyond the column count forces the last column.
\<close>

definition lastIndexClamped :: "tableState \<Rightarrow> columnAnchor \<Rightarrow> int option" where
  "lastIndexClamped state anchor =
     (let columnCount = int (length (scrollableColumns state))
      in if (case firstIndex anchor of None \<Rightarrow> False | Some i \<Rightarrow> i \<ge> columnCount) \<or>
            (case lastIndex anchor of None \<Rightarrow> False | Some i \<Rightarrow> i \<ge> columnCount)
         then Some (columnCount - 1) else lastIndex anchor)"

text \<open>
  The window that \<^verbatim>\<open>computeRenderedColumnOffsets\<close> iterates: its
  \<^verbatim>\<open>startIdx\<close> and \<^verbatim>\<open>endIdx\<close>.
\<close>

definition windowStart :: "columnRange \<Rightarrow> bool \<Rightarrow> int" where
  "windowStart columnRange viewportOnly =
     (if viewportOnly then firstViewportCol columnRange else firstBufferCol columnRange)"

definition windowEnd :: "columnRange \<Rightarrow> bool \<Rightarrow> int" where
  "windowEnd columnRange viewportOnly =
     (if viewportOnly then endViewportCol columnRange else endBufferCol columnRange)"

definition rangeOrdered :: "columnRange \<Rightarrow> bool" where
  "rangeOrdered columnRange \<longleftrightarrow>
     firstBufferCol columnRange \<le> firstViewportCol columnRange \<and>
     firstViewportCol columnRange \<le> endViewportCol columnRange \<and>
     endViewportCol columnRange \<le> endBufferCol columnRange"

text \<open>
  A pass of \<^verbatim>\<open>computeRenderedColumnOffsets\<close> visits a column when it does not
  return early and the column lies in the window.
\<close>

definition inWindow :: "columnRange \<Rightarrow> bool \<Rightarrow> int \<Rightarrow> bool" where
  "inWindow columnRange viewportOnly c \<longleftrightarrow>
     endBufferCol columnRange - firstBufferCol columnRange \<noteq> 0 \<and>
     windowStart columnRange viewportOnly \<le> c \<and> c < windowEnd columnRange viewportOnly"

text \<open>The measured width of the columns from \<open>a\<close> up to, not including, \<open>b\<close>.\<close>

definition spanWidth :: "int list \<Rightarrow> int \<Rightarrow> int \<Rightarrow> int" where
  "spanWidth ws a b = sum_list (map (\<lambda>i. ws ! nat i) [a..b - 1])"

text \<open>The number of slots of \<^verbatim>\<open>columnsToRender\<close> that hold a column.\<close>

definition assignedSlots :: "int option list \<Rightarrow> nat" where
  "assignedSlots columns = length (filter (\<lambda>c. c \<noteq> None) columns)"

text \<open>
  A table that has rendered nothing yet: no width recorded, no column tracked.
\<close>

definition freshTable :: "int list \<Rightarrow> int \<Rightarrow> int \<Rightarrow> tableState" where
  "freshTable ws availWidth maxX =
     \<lparr>scrollX = 0, scrolling = False, firstColumnIndex = 0, endColumnIndex = 0,
      firstColumnOffset = 0, columnOffsets = Map.empty, columnsToRender = [],
      columnOffsetIntervalTree = (\<lambda>i. 0), columnBufferSet = [],
      availableScrollWidth = availWidth, scrollableColumns = ws, maxScrollX = maxX\<rparr>"

section \<open>Properties\<close>

subsection \<open>The slot allocator\<close>

lemma getValuePosition_None_iff: "getValuePosition bs v = None \<longleftrightarrow> v \<notin> set bs"
  by (induction bs) auto

lemma getValuePosition_Some_nth:
  "getValuePosition bs v = Some p \<Longrightarrow> p < length bs \<and> bs ! p = v"
  by (induction bs arbitrary: p) (auto split: if_splits)

lemma getValuePosition_append:
  "getValuePosition bs v = Some p \<Longrightarrow> getValuePosition (bs @ cs) v = Some p"
  by (induction bs arbitrary: p) (auto split: if_splits)

lemma getValuePosition_append_new:
  "v \<notin> set bs \<Longrightarrow> getValuePosition (bs @ [v]) v = Some (length bs)"
  by (induction bs) auto

lemma getValuePosition_update_other:
  "getValuePosition bs e = Some q \<Longrightarrow> v \<noteq> e \<Longrightarrow> v \<noteq> n \<Longrightarrow>
   getValuePosition (bs[q := n]) v = getValuePosition bs v"
  by (induction bs arbitrary: q) (auto split: if_splits nat.splits)

lemma getValuePosition_update_new:
  "getValuePosition bs e = Some q \<Longrightarrow> n \<notin> set bs \<Longrightarrow>
   getValuePosition (bs[q := n]) n = Some q"
  by (induction bs arbitrary: q) (auto split: if_splits nat.splits)

lemma fold_min_Min: "fold min bs (b::int) = Min (set (b # bs))"
  using Min.set_eq_fold [of b bs] by simp

lemma fold_max_Max: "fold max bs (b::int) = Max (set (b # bs))"
  using Max.set_eq_fold [of b bs] by simp

lemma replaceFurthest_inside:
  "\<forall>t\<in>set bs. lo \<le> t \<and> t \<le> hi \<Longrightarrow> replaceFurthestValuePosition bs lo hi v = (None, bs)"
  by (cases bs) (auto simp: fold_min_Min fold_max_Max Let_def)

lemma replaceFurthest_Some:
  assumes "replaceFurthestValuePosition bs lo hi v = (Some p, bs')"
  shows "\<exists>e. getValuePosition bs e = Some p \<and> (e < lo \<or> hi < e) \<and> bs' = bs[p := v]"
proof (cases bs)
  case Nil
  with assms show ?thesis by simp
next
  case (Cons b cs)
  let ?mn = "Min (set bs)" and ?mx = "Max (set bs)"
  have ne: "set bs \<noteq> {}" "finite (set bs)" using Cons by auto
  have mnmx: "?mn \<le> ?mx" using ne by (meson Max_ge Min_in)
  from assms Cons have out: "\<not> (lo \<le> ?mn \<and> ?mx \<le> hi)"
    by (auto simp: fold_min_Min fold_max_Max Let_def split: if_splits)
  show ?thesis
  proof (cases "lo - ?mn > ?mx - hi")
    case True
    with assms Cons out have "getValuePosition bs ?mn = Some p \<and> bs' = bs[p := v]"
      by (auto simp: fold_min_Min fold_max_Max Let_def split: if_splits option.splits)
    moreover from True out have "?mn < lo" by linarith
    ultimately show ?thesis by blast
  next
    case False
    with assms Cons out have "getValuePosition bs ?mx = Some p \<and> bs' = bs[p := v]"
      by (auto simp: fold_min_Min fold_max_Max Let_def split: if_splits option.splits)
    moreover from False out have "hi < ?mx" by linarith
    ultimately show ?thesis by blast
  qed
qed

lemma replaceFurthest_None:
  "replaceFurthestValuePosition bs lo hi v = (None, bs') \<Longrightarrow> bs' = bs"
  by (cases bs) (auto simp: Let_def split: if_splits option.splits)

subsection \<open>Adding a column to the buffer\<close>

lemma addColumnToBuffer_tracked:
  "getValuePosition bs c = Some p \<Longrightarrow> addColumnToBuffer c bs lo hi m = (p, bs)"
  by (simp add: addColumnToBuffer_def)

lemma addColumnToBuffer_cases:
  assumes "addColumnToBuffer c bs lo hi m = (p, bs')"
  shows "(getValuePosition bs c = Some p \<and> bs' = bs) \<or>
         (c \<notin> set bs \<and> p = length bs \<and> bs' = bs @ [c]) \<or>
         (c \<notin> set bs \<and> m \<le> int (length bs) \<and>
            (\<exists>e. getValuePosition bs e = Some p \<and> (e < lo \<or> hi - 1 < e) \<and> bs' = bs[p := c]))"
proof (cases "getValuePosition bs c")
  case (Some q)
  with assms show ?thesis by (simp add: addColumnToBuffer_def)
next
  case None
  then have notin: "c \<notin> set bs" by (simp add: getValuePosition_None_iff)
  show ?thesis
  proof (cases "m \<le> int (length bs)")
    case False
    with assms None notin show ?thesis
      by (auto simp: addColumnToBuffer_def getSize_def getNewPositionForValue_def)
  next
    case True
    obtain r bs1 where rf: "replaceFurthestValuePosition bs lo (hi - 1) c = (r, bs1)"
      by (cases "replaceFurthestValuePosition bs lo (hi - 1) c")
    show ?thesis
    proof (cases r)
      case None
      with rf have "bs1 = bs" by (simp add: replaceFurthest_None)
      with assms \<open>getValuePosition bs c = None\<close> True rf None notin show ?thesis
        by (auto simp: addColumnToBuffer_def getSize_def getNewPositionForValue_def)
    next
      case (Some q)
      with rf replaceFurthest_Some [of bs lo "hi - 1" c q bs1]
      obtain e where "getValuePosition bs e = Some q" "e < lo \<or> hi - 1 < e" "bs1 = bs[q := c]"
        by blast
      with assms \<open>getValuePosition bs c = None\<close> True rf Some notin show ?thesis
        by (auto simp: addColumnToBuffer_def getSize_def)
    qed
  qed
qed

lemma addColumnToBuffer_position:
  assumes "addColumnToBuffer c bs lo hi m = (p, bs')"
  shows "getValuePosition bs' c = Some p"
  using addColumnToBuffer_cases [OF assms]
  by (auto simp: getValuePosition_append_new getValuePosition_update_new)

lemma addColumnToBuffer_keeps:
  assumes "addColumnToBuffer c bs lo hi m = (p, bs')"
    and "getValuePosition bs t = Some q" and "lo \<le> t" and "t < hi"
  shows "getValuePosition bs' t = Some q"
proof -
  from assms(2) have tin: "t \<in> set bs"
    using getValuePosition_None_iff [of bs t] by auto
  from addColumnToBuffer_cases [OF assms(1)]
  consider "bs' = bs" | "bs' = bs @ [c]"
    | e where "c \<notin> set bs" "getValuePosition bs e = Some p" "e < lo \<or> hi - 1 < e" "bs' = bs[p := c]"
    by blast
  then show ?thesis
  proof cases
    case 1
    then show ?thesis using assms(2) by simp
  next
    case 2
    then show ?thesis using assms(2) by (simp add: getValuePosition_append)
  next
    case 3
    then have "t \<noteq> e" "t \<noteq> c" using assms(3,4) tin by auto
    with 3 assms(2) show ?thesis by (simp add: getValuePosition_update_other)
  qed
qed

lemma addColumnToBuffer_length:
  assumes "addColumnToBuffer c bs lo hi m = (p, bs')"
  shows "length bs \<le> length bs' \<and> p < length bs'"
  using addColumnToBuffer_cases [OF assms]
  by (auto dest: getValuePosition_Some_nth)

lemma length_arraySet: "length (arraySet xs p v) = max (length xs) (Suc p)"
  by (auto simp: arraySet_def)

lemma nth_arraySet_same: "arraySet xs p v ! p = Some v"
  by (auto simp: arraySet_def nth_append)

lemma nth_arraySet_other: "q \<noteq> p \<Longrightarrow> q < length xs \<Longrightarrow> arraySet xs p v ! q = xs ! q"
  by (auto simp: arraySet_def nth_append)

lemma offsetsLoop_keeps:
  "offsetsLoop tree lo hi m j bs r cols offs = (bs', cols', offs') \<Longrightarrow>
   getValuePosition bs t = Some q \<Longrightarrow> lo \<le> t \<Longrightarrow> t < hi \<Longrightarrow>
   getValuePosition bs' t = Some q"
proof (induction tree lo hi m j bs r cols offs rule: offsetsLoop.induct)
  case (1 tree lo hi m j bs r cols offs)
  show ?case
  proof (cases "j < hi")
    case False
    with "1.prems" show ?thesis by (simp add: offsetsLoop.simps [of tree lo hi m j])
  next
    case True
    obtain p bs1 where add: "addColumnToBuffer j bs lo hi m = (p, bs1)"
      by (cases "addColumnToBuffer j bs lo hi m")
    from "1.prems"(1) True add
    have rec: "offsetsLoop tree lo hi m (j + 1) bs1 (r + treeGet tree j)
                 (arraySet cols p j) (offs(j \<mapsto> r)) = (bs', cols', offs')"
      by (simp add: offsetsLoop.simps [of tree lo hi m j])
    have "getValuePosition bs1 t = Some q"
      using addColumnToBuffer_keeps [OF add "1.prems"(2,3,4)] .
    from "1.IH" [OF True add [symmetric] rec this "1.prems"(3,4)] show ?thesis .
  qed
qed

subsection \<open>The loop over the window\<close>

lemma getValuePosition_inj:
  "getValuePosition bs a = Some p \<Longrightarrow> getValuePosition bs b = Some p \<Longrightarrow> a = b"
  by (auto dest: getValuePosition_Some_nth)

lemma offsetsLoop_slots:
  "offsetsLoop tree lo hi m j bs r cols offs = (bs', cols', offs') \<Longrightarrow>
   (\<forall>c. lo \<le> c \<and> c < j \<longrightarrow>
      (\<exists>p. getValuePosition bs c = Some p \<and> p < length cols \<and> cols ! p = Some c)) \<Longrightarrow>
   lo \<le> c \<Longrightarrow> c < hi \<Longrightarrow>
   \<exists>p. getValuePosition bs' c = Some p \<and> p < length cols' \<and> cols' ! p = Some c"
proof (induction tree lo hi m j bs r cols offs rule: offsetsLoop.induct)
  case (1 tree lo hi m j bs r cols offs)
  show ?case
  proof (cases "j < hi")
    case False
    with "1.prems" show ?thesis by (simp add: offsetsLoop.simps [of tree lo hi m j])
  next
    case True
    obtain p bs1 where add: "addColumnToBuffer j bs lo hi m = (p, bs1)"
      by (cases "addColumnToBuffer j bs lo hi m")
    from "1.prems"(1) True add
    have rec: "offsetsLoop tree lo hi m (j + 1) bs1 (r + treeGet tree j)
                 (arraySet cols p j) (offs(j \<mapsto> r)) = (bs', cols', offs')"
      by (simp add: offsetsLoop.simps [of tree lo hi m j])
    have pj: "getValuePosition bs1 j = Some p"
      using addColumnToBuffer_position [OF add] .
    have inv: "\<forall>d. lo \<le> d \<and> d < j + 1 \<longrightarrow>
      (\<exists>q. getValuePosition bs1 d = Some q \<and> q < length (arraySet cols p j) \<and>
           arraySet cols p j ! q = Some d)"
    proof (intro allI impI)
      fix d assume d: "lo \<le> d \<and> d < j + 1"
      show "\<exists>q. getValuePosition bs1 d = Some q \<and> q < length (arraySet cols p j) \<and>
           arraySet cols p j ! q = Some d"
      proof (cases "d = j")
        case True
        then show ?thesis using pj by (simp add: length_arraySet nth_arraySet_same)
      next
        case False
        with d have dj: "lo \<le> d" "d < j" by auto
        with "1.prems"(2) obtain q where q: "getValuePosition bs d = Some q"
          "q < length cols" "cols ! q = Some d" by blast
        have q1: "getValuePosition bs1 d = Some q"
          using addColumnToBuffer_keeps [OF add q(1) dj(1)] dj(2) True by simp
        have "q \<noteq> p" using getValuePosition_inj [OF q1] pj False by auto
        with q q1 show ?thesis by (simp add: length_arraySet nth_arraySet_other)
      qed
    qed
    from "1.IH" [OF True add [symmetric] rec inv "1.prems"(3,4)] show ?thesis .
  qed
qed

lemma offsetsLoop_offsets:
  "offsetsLoop tree lo hi m j bs r cols offs = (bs', cols', offs') \<Longrightarrow>
   (\<forall>i. i < j \<longrightarrow> offs' i = offs i) \<and>
   (j < hi \<longrightarrow> offs' j = Some r) \<and>
   (\<forall>i. j \<le> i \<and> i + 1 < hi \<longrightarrow>
      (\<exists>a. offs' i = Some a \<and> offs' (i + 1) = Some (a + treeGet tree i))) \<and>
   (\<forall>i. hi \<le> i \<longrightarrow> offs' i = offs i)"
proof (induction tree lo hi m j bs r cols offs rule: offsetsLoop.induct)
  case (1 tree lo hi m j bs r cols offs)
  show ?case
  proof (cases "j < hi")
    case False
    with "1.prems" show ?thesis by (auto simp: offsetsLoop.simps [of tree lo hi m j])
  next
    case True
    obtain p bs1 where add: "addColumnToBuffer j bs lo hi m = (p, bs1)"
      by (cases "addColumnToBuffer j bs lo hi m")
    from "1.prems"(1) True add
    have rec: "offsetsLoop tree lo hi m (j + 1) bs1 (r + treeGet tree j)
                 (arraySet cols p j) (offs(j \<mapsto> r)) = (bs', cols', offs')"
      by (simp add: offsetsLoop.simps [of tree lo hi m j])
    note ih = "1.IH" [OF True add [symmetric] rec]
    from ih have a: "\<forall>i. i < j + 1 \<longrightarrow> offs' i = (offs(j \<mapsto> r)) i"
      and b: "j + 1 < hi \<longrightarrow> offs' (j + 1) = Some (r + treeGet tree j)"
      and c: "\<forall>i. j + 1 \<le> i \<and> i + 1 < hi \<longrightarrow>
               (\<exists>a. offs' i = Some a \<and> offs' (i + 1) = Some (a + treeGet tree i))"
      and d: "\<forall>i. hi \<le> i \<longrightarrow> offs' i = (offs(j \<mapsto> r)) i"
      by blast+
    have j: "offs' j = Some r" using a by simp
    have "\<forall>i. i < j \<longrightarrow> offs' i = offs i" using a by simp
    moreover have "\<forall>i. j \<le> i \<and> i + 1 < hi \<longrightarrow>
      (\<exists>a. offs' i = Some a \<and> offs' (i + 1) = Some (a + treeGet tree i))"
    proof (intro allI impI)
      fix i assume i: "j \<le> i \<and> i + 1 < hi"
      show "\<exists>a. offs' i = Some a \<and> offs' (i + 1) = Some (a + treeGet tree i)"
      proof (cases "i = j")
        case True
        with i j b show ?thesis by simp
      next
        case False
        with i c show ?thesis by simp
      qed
    qed
    moreover have "\<forall>i. hi \<le> i \<longrightarrow> offs' i = offs i" using d True by simp
    ultimately show ?thesis using j by blast
  qed
qed

lemma offsetsLoop_length:
  "offsetsLoop tree lo hi m j bs r cols offs = (bs', cols', offs') \<Longrightarrow>
   length cols \<le> length bs \<Longrightarrow> length cols' \<le> length bs' \<and> length bs \<le> length bs'"
proof (induction tree lo hi m j bs r cols offs rule: offsetsLoop.induct)
  case (1 tree lo hi m j bs r cols offs)
  show ?case
  proof (cases "j < hi")
    case False
    with "1.prems" show ?thesis by (simp add: offsetsLoop.simps [of tree lo hi m j])
  next
    case True
    obtain p bs1 where add: "addColumnToBuffer j bs lo hi m = (p, bs1)"
      by (cases "addColumnToBuffer j bs lo hi m")
    from "1.prems"(1) True add
    have rec: "offsetsLoop tree lo hi m (j + 1) bs1 (r + treeGet tree j)
                 (arraySet cols p j) (offs(j \<mapsto> r)) = (bs', cols', offs')"
      by (simp add: offsetsLoop.simps [of tree lo hi m j])
    have len: "length bs \<le> length bs1" "p < length bs1"
      using addColumnToBuffer_length [OF add] by auto
    then have "length (arraySet cols p j) \<le> length bs1"
      using "1.prems"(2) by (simp add: length_arraySet)
    from "1.IH" [OF True add [symmetric] rec this] len show ?thesis by simp
  qed
qed

lemma assignedSlots_arraySet: "assignedSlots (arraySet xs p v) \<le> Suc (assignedSlots xs)"
proof (cases "p < length xs")
  case False
  then show ?thesis by (simp add: assignedSlots_def arraySet_def)
next
  case True
  have "xs[p := Some v] = take p xs @ Some v # drop (Suc p) xs"
    using True by (simp add: upd_conv_take_nth_drop)
  moreover have "length (filter (\<lambda>c. c \<noteq> None) (take p xs)) +
      length (filter (\<lambda>c. c \<noteq> None) (drop (Suc p) xs))
      \<le> length (filter (\<lambda>c. c \<noteq> None) xs)"
  proof -
    have "xs = take p xs @ xs ! p # drop (Suc p) xs"
      using True by (simp add: id_take_nth_drop [symmetric])
    then have "length (filter (\<lambda>c. c \<noteq> None) xs) =
      length (filter (\<lambda>c. c \<noteq> None) (take p xs @ xs ! p # drop (Suc p) xs))" by simp
    then show ?thesis by (simp del: append_take_drop_id)
  qed
  ultimately show ?thesis using True by (simp add: assignedSlots_def arraySet_def)
qed

lemma offsetsLoop_assigned:
  "offsetsLoop tree lo hi m j bs r cols offs = (bs', cols', offs') \<Longrightarrow>
   int (assignedSlots cols') \<le> int (assignedSlots cols) + max 0 (hi - j)"
proof (induction tree lo hi m j bs r cols offs rule: offsetsLoop.induct)
  case (1 tree lo hi m j bs r cols offs)
  show ?case
  proof (cases "j < hi")
    case False
    with "1.prems" show ?thesis by (simp add: offsetsLoop.simps [of tree lo hi m j])
  next
    case True
    obtain p bs1 where add: "addColumnToBuffer j bs lo hi m = (p, bs1)"
      by (cases "addColumnToBuffer j bs lo hi m")
    from "1.prems"(1) True add
    have rec: "offsetsLoop tree lo hi m (j + 1) bs1 (r + treeGet tree j)
                 (arraySet cols p j) (offs(j \<mapsto> r)) = (bs', cols', offs')"
      by (simp add: offsetsLoop.simps [of tree lo hi m j])
    from "1.IH" [OF True add [symmetric] rec] assignedSlots_arraySet [of cols p j] True
    show ?thesis by linarith
  qed
qed

lemma pass_unfold:
  assumes "endBufferCol r - firstBufferCol r \<noteq> 0"
  shows "\<exists>bs cols offs.
     offsetsLoop (columnOffsetIntervalTree s) (windowStart r v) (windowEnd r v)
       (endBufferCol r - firstBufferCol r) (windowStart r v) (columnBufferSet s)
       (sumUntil (columnOffsetIntervalTree s) (windowStart r v)) [] Map.empty = (bs, cols, offs) \<and>
     computeRenderedColumnOffsets s r v =
       s\<lparr>columnBufferSet := bs, columnsToRender := cols, columnOffsets := offs\<rparr>"
proof -
  obtain bs cols offs where
    "offsetsLoop (columnOffsetIntervalTree s) (windowStart r v) (windowEnd r v)
       (endBufferCol r - firstBufferCol r) (windowStart r v) (columnBufferSet s)
       (sumUntil (columnOffsetIntervalTree s) (windowStart r v)) [] Map.empty = (bs, cols, offs)"
    using prod_cases3 by blast
  with assms show ?thesis
    by (simp add: computeRenderedColumnOffsets_def windowStart_def windowEnd_def Let_def)
qed

lemma pass_slots:
  assumes "inWindow r v c"
  shows "\<exists>p. getValuePosition (columnBufferSet (computeRenderedColumnOffsets s r v)) c = Some p \<and>
     p < length (columnsToRender (computeRenderedColumnOffsets s r v)) \<and>
     columnsToRender (computeRenderedColumnOffsets s r v) ! p = Some c"
proof -
  from assms have ne: "endBufferCol r - firstBufferCol r \<noteq> 0"
    and c: "windowStart r v \<le> c" "c < windowEnd r v" by (auto simp: inWindow_def)
  from pass_unfold [OF ne, of s v] obtain bs cols offs where
    loop: "offsetsLoop (columnOffsetIntervalTree s) (windowStart r v) (windowEnd r v)
       (endBufferCol r - firstBufferCol r) (windowStart r v) (columnBufferSet s)
       (sumUntil (columnOffsetIntervalTree s) (windowStart r v)) [] Map.empty = (bs, cols, offs)"
    and res: "computeRenderedColumnOffsets s r v =
       s\<lparr>columnBufferSet := bs, columnsToRender := cols, columnOffsets := offs\<rparr>" by blast
  have "\<exists>p. getValuePosition bs c = Some p \<and> p < length cols \<and> cols ! p = Some c"
    by (rule offsetsLoop_slots [OF loop _ c]) simp
  with res show ?thesis by simp
qed

lemma pass_keeps:
  assumes "inWindow r v c" and "getValuePosition (columnBufferSet s) c = Some p"
  shows "getValuePosition (columnBufferSet (computeRenderedColumnOffsets s r v)) c = Some p"
proof -
  from assms have ne: "endBufferCol r - firstBufferCol r \<noteq> 0"
    and c: "windowStart r v \<le> c" "c < windowEnd r v" by (auto simp: inWindow_def)
  from pass_unfold [OF ne, of s v] obtain bs cols offs where
    loop: "offsetsLoop (columnOffsetIntervalTree s) (windowStart r v) (windowEnd r v)
       (endBufferCol r - firstBufferCol r) (windowStart r v) (columnBufferSet s)
       (sumUntil (columnOffsetIntervalTree s) (windowStart r v)) [] Map.empty = (bs, cols, offs)"
    and res: "computeRenderedColumnOffsets s r v =
       s\<lparr>columnBufferSet := bs, columnsToRender := cols, columnOffsets := offs\<rparr>" by blast
  from offsetsLoop_keeps [OF loop assms(2) c] res show ?thesis by simp
qed

subsection \<open>Slot stability\<close>

text \<open>
  Claim C6, as amended.  A column that already has a slot is given that same slot
  by \<^verbatim>\<open>addColumnToBuffer\<close>, and the allocator is returned as it was, whatever
  the window and the capacity are.  Consequently a column that lies in the windows
  of two consecutive passes of \<^verbatim>\<open>computeRenderedColumnOffsets\<close> sits at the same
  slot of \<^verbatim>\<open>columnsToRender\<close> after the first and after the second pass, and the
  allocator tracks it at that slot after both.
\<close>

theorem slot_stability:
  "(getValuePosition bs c = Some p \<longrightarrow>
      addColumnToBuffer c bs startRange endRange maxBufferSize = (p, bs)) \<and>
   (inWindow r1 v1 d \<and> inWindow r2 v2 d \<longrightarrow>
      (\<exists>q. getValuePosition (columnBufferSet (computeRenderedColumnOffsets s r1 v1)) d = Some q \<and>
           q < length (columnsToRender (computeRenderedColumnOffsets s r1 v1)) \<and>
           columnsToRender (computeRenderedColumnOffsets s r1 v1) ! q = Some d \<and>
           q < length (columnsToRender
                 (computeRenderedColumnOffsets (computeRenderedColumnOffsets s r1 v1) r2 v2)) \<and>
           columnsToRender
             (computeRenderedColumnOffsets (computeRenderedColumnOffsets s r1 v1) r2 v2) ! q = Some d \<and>
           getValuePosition (columnBufferSet
             (computeRenderedColumnOffsets (computeRenderedColumnOffsets s r1 v1) r2 v2)) d = Some q))"
proof (intro conjI impI)
  assume "getValuePosition bs c = Some p"
  then show "addColumnToBuffer c bs startRange endRange maxBufferSize = (p, bs)"
    by (rule addColumnToBuffer_tracked)
next
  assume w: "inWindow r1 v1 d \<and> inWindow r2 v2 d"
  let ?s1 = "computeRenderedColumnOffsets s r1 v1"
  let ?s2 = "computeRenderedColumnOffsets ?s1 r2 v2"
  from w pass_slots [of r1 v1 d s] obtain q where
    q: "getValuePosition (columnBufferSet ?s1) d = Some q" "q < length (columnsToRender ?s1)"
       "columnsToRender ?s1 ! q = Some d" by blast
  from w pass_slots [of r2 v2 d ?s1] obtain q' where
    q': "getValuePosition (columnBufferSet ?s2) d = Some q'" "q' < length (columnsToRender ?s2)"
       "columnsToRender ?s2 ! q' = Some d" by blast
  from w pass_keeps [of r2 v2 d ?s1 q] q(1)
  have "getValuePosition (columnBufferSet ?s2) d = Some q" by simp
  with q' have "q' = q" by simp
  with q q' show "\<exists>q. getValuePosition (columnBufferSet ?s1) d = Some q \<and>
           q < length (columnsToRender ?s1) \<and> columnsToRender ?s1 ! q = Some d \<and>
           q < length (columnsToRender ?s2) \<and> columnsToRender ?s2 ! q = Some d \<and>
           getValuePosition (columnBufferSet ?s2) d = Some q"
    by blast
qed

theorem slot_stability_witness:
  "getValuePosition [5, 6] 6 = Some 1 \<and>
   addColumnToBuffer 6 [5, 6] 0 3 2 = (1, [5, 6]) \<and>
   inWindow \<lparr>endBufferCol = 3, endViewportCol = 3, firstBufferCol = 0, firstViewportCol = 0\<rparr> False 2 \<and>
   inWindow \<lparr>endBufferCol = 4, endViewportCol = 4, firstBufferCol = 2, firstViewportCol = 2\<rparr> True 2 \<and>
   (\<exists>q. columnsToRender (computeRenderedColumnOffsets (freshTable [100, 100, 100, 100, 100] 250 250)
             \<lparr>endBufferCol = 3, endViewportCol = 3, firstBufferCol = 0, firstViewportCol = 0\<rparr> False) ! q
           = Some 2 \<and>
        columnsToRender
          (computeRenderedColumnOffsets
            (computeRenderedColumnOffsets (freshTable [100, 100, 100, 100, 100] 250 250)
               \<lparr>endBufferCol = 3, endViewportCol = 3, firstBufferCol = 0, firstViewportCol = 0\<rparr> False)
            \<lparr>endBufferCol = 4, endViewportCol = 4, firstBufferCol = 2, firstViewportCol = 2\<rparr> True) ! q
           = Some 2)"
proof -
  let ?r1 = "\<lparr>endBufferCol = 3, endViewportCol = 3, firstBufferCol = 0, firstViewportCol = 0\<rparr>"
  let ?r2 = "\<lparr>endBufferCol = 4, endViewportCol = 4, firstBufferCol = 2, firstViewportCol = 2\<rparr>"
  have h1: "getValuePosition [5, 6] 6 = Some 1" by simp
  have h2: "inWindow ?r1 False 2" by (simp add: inWindow_def windowStart_def windowEnd_def)
  have h3: "inWindow ?r2 True 2" by (simp add: inWindow_def windowStart_def windowEnd_def)
  from slot_stability [of "[5, 6]" 6 1 0 3 2 ?r1 False 2 ?r2 True
      "freshTable [100, 100, 100, 100, 100] 250 250"] h1 h2 h3
  show ?thesis by blast
qed

text \<open>
  A column of the first window that the second window leaves behind lies within
  the union of the two windows and does not keep its slot.  On a fresh table, the
  pass over the columns 0 to 2 puts column 0 at slot 0; the pass over the columns
  1 to 3 finds the allocator at capacity, evicts column 0 and puts column 3 at
  slot 0.
\<close>

theorem slot_stability_counterexample:
  "inWindow \<lparr>endBufferCol = 3, endViewportCol = 3, firstBufferCol = 0, firstViewportCol = 0\<rparr> False 0 \<and>
   columnsToRender
     (computeRenderedColumnOffsets (freshTable [100, 100, 100, 100, 100] 250 250)
        \<lparr>endBufferCol = 3, endViewportCol = 3, firstBufferCol = 0, firstViewportCol = 0\<rparr> False)
     = [Some 0, Some 1, Some 2] \<and>
   getValuePosition (columnBufferSet
     (computeRenderedColumnOffsets (freshTable [100, 100, 100, 100, 100] 250 250)
        \<lparr>endBufferCol = 3, endViewportCol = 3, firstBufferCol = 0, firstViewportCol = 0\<rparr> False)) 0
     = Some 0 \<and>
   columnsToRender
     (computeRenderedColumnOffsets
        (computeRenderedColumnOffsets (freshTable [100, 100, 100, 100, 100] 250 250)
           \<lparr>endBufferCol = 3, endViewportCol = 3, firstBufferCol = 0, firstViewportCol = 0\<rparr> False)
        \<lparr>endBufferCol = 4, endViewportCol = 4, firstBufferCol = 1, firstViewportCol = 1\<rparr> False)
     = [Some 3, Some 1, Some 2] \<and>
   getValuePosition (columnBufferSet
     (computeRenderedColumnOffsets
        (computeRenderedColumnOffsets (freshTable [100, 100, 100, 100, 100] 250 250)
           \<lparr>endBufferCol = 3, endViewportCol = 3, firstBufferCol = 0, firstViewportCol = 0\<rparr> False)
        \<lparr>endBufferCol = 4, endViewportCol = 4, firstBufferCol = 1, firstViewportCol = 1\<rparr> False)) 0
     = None"
  by code_simp

subsection \<open>No eviction candidate\<close>

text \<open>
  Claim C7.  When the column has no slot, the allocator is at capacity and every
  tracked column lies inside the closed window from \<open>startRange\<close> to
  \<open>endRange - 1\<close>, the eviction request yields no candidate,
  \<^verbatim>\<open>addColumnToBuffer\<close> allocates the fresh slot (the former tracked count)
  and the tracked count then exceeds the capacity.  The function returns a slot;
  it has no failing branch.
\<close>

theorem addColumnToBuffer_no_candidate:
  assumes "getValuePosition bs c = None"
    and "maxBufferSize \<le> int (getSize bs)"
    and "\<forall>t\<in>set bs. startRange \<le> t \<and> t \<le> endRange - 1"
  shows "replaceFurthestValuePosition bs startRange (endRange - 1) c = (None, bs) \<and>
         addColumnToBuffer c bs startRange endRange maxBufferSize = (getSize bs, bs @ [c]) \<and>
         maxBufferSize < int (getSize (bs @ [c]))"
  using assms replaceFurthest_inside [of bs startRange "endRange - 1" c]
  by (simp add: addColumnToBuffer_def getSize_def getNewPositionForValue_def)

theorem addColumnToBuffer_no_candidate_witness:
  "getValuePosition [0, 1] 2 = None \<and> (2::int) \<le> int (getSize [0, 1]) \<and>
   set [0, 1] \<subseteq> {(0::int)..3 - 1} \<and>
   replaceFurthestValuePosition [0, 1] 0 (3 - 1) 2 = (None, [0, 1]) \<and>
   addColumnToBuffer 2 [0, 1] 0 3 2 = (getSize [0, 1], [0, 1] @ [2]) \<and>
   (2::int) < int (getSize ([0, 1] @ [2]))"
proof -
  have h1: "getValuePosition [0, 1] 2 = None" by simp
  have h2: "(2::int) \<le> int (getSize [0, 1])" by (simp add: getSize_def)
  have h3: "\<forall>t\<in>set [0, 1]. (0::int) \<le> t \<and> t \<le> 3 - 1" by simp
  have h4: "set [0, 1] \<subseteq> {(0::int)..3 - 1}" by simp
  from addColumnToBuffer_no_candidate [OF h1 h2 h3] h1 h2 h4 show ?thesis by blast
qed

subsection \<open>The degenerate table\<close>

text \<open>
  Claim C9.  With an available scroll width of \<open>0\<close> or without scrollable
  columns, and for every anchor, the range has all four bounds \<open>0\<close>, the
  first and end column index and the first column offset are \<open>0\<close>, the
  offsets and the columns to render are empty, and the scroll position is the
  given one clamped between \<open>0\<close> and \<^verbatim>\<open>maxScrollX\<close>.  Nothing else of the
  state changes and the result is a state, not an error.
\<close>

theorem degenerate_table:
  assumes "availableScrollWidth s = 0 \<or> scrollableColumns s = []"
  shows "calculateRenderedColumnRange s a =
           Inr (s\<lparr>firstColumnIndex := 0, endColumnIndex := 0, firstColumnOffset := 0\<rparr>,
                \<lparr>endBufferCol = 0, endViewportCol = 0, firstBufferCol = 0, firstViewportCol = 0\<rparr>) \<and>
         computeRenderedColumns s a =
           Inr (s\<lparr>firstColumnIndex := 0, endColumnIndex := 0, firstColumnOffset := 0,
                  columnOffsets := Map.empty, columnsToRender := [],
                  scrollX := clamp (scrollX s) 0 (maxScrollX s)\<rparr>) \<and>
         (0 \<le> maxScrollX s \<longrightarrow>
            0 \<le> clamp (scrollX s) 0 (maxScrollX s) \<and> clamp (scrollX s) 0 (maxScrollX s) \<le> maxScrollX s)"
proof -
  have calc: "calculateRenderedColumnRange s a =
           Inr (s\<lparr>firstColumnIndex := 0, endColumnIndex := 0, firstColumnOffset := 0\<rparr>,
                \<lparr>endBufferCol = 0, endViewportCol = 0, firstBufferCol = 0, firstViewportCol = 0\<rparr>)"
    using assms by (auto simp: calculateRenderedColumnRange_def)
  have "computeRenderedColumns s a =
           Inr (s\<lparr>firstColumnIndex := 0, endColumnIndex := 0, firstColumnOffset := 0,
                  columnOffsets := Map.empty, columnsToRender := [],
                  scrollX := clamp (scrollX s) 0 (maxScrollX s)\<rparr>)"
    by (simp add: computeRenderedColumns_def calc computeRenderedColumnOffsets_def)
  moreover have "0 \<le> maxScrollX s \<longrightarrow>
            0 \<le> clamp (scrollX s) 0 (maxScrollX s) \<and> clamp (scrollX s) 0 (maxScrollX s) \<le> maxScrollX s"
    by (simp add: clamp_def Let_def)
  ultimately show ?thesis using calc by blast
qed

theorem degenerate_table_witness:
  "(availableScrollWidth ((freshTable [] 250 100)\<lparr>scrollX := 170\<rparr>) = 0 \<or>
    scrollableColumns ((freshTable [] 250 100)\<lparr>scrollX := 170\<rparr>) = []) \<and>
   (0::int) \<le> maxScrollX ((freshTable [] 250 100)\<lparr>scrollX := 170\<rparr>) \<and>
   computeRenderedColumns ((freshTable [] 250 100)\<lparr>scrollX := 170\<rparr>)
       \<lparr>firstIndex = Some 3, firstOffset = - 20, lastIndex = None\<rparr> =
     Inr ((freshTable [] 250 100)\<lparr>scrollX := 100\<rparr>)"
proof -
  let ?s = "(freshTable [] 250 100)\<lparr>scrollX := 170\<rparr>"
  have h: "availableScrollWidth ?s = 0 \<or> scrollableColumns ?s = []"
    by (simp add: freshTable_def)
  from degenerate_table [OF h, of "\<lparr>firstIndex = Some 3, firstOffset = - 20, lastIndex = None\<rparr>"] h
  show ?thesis by (simp add: freshTable_def clamp_def)
qed

subsection \<open>Widths of spans and the walk of the viewport\<close>



lemma spanWidth_tail: "a < b \<Longrightarrow> spanWidth ws a b = spanWidth ws a (b - 1) + ws ! nat (b - 1)"
  using upto_rec2 [of a "b - 1"] by (simp add: spanWidth_def)

lemma spanWidth_single: "spanWidth ws a (a + 1) = ws ! nat a"
  by (simp add: spanWidth_def)



lemma updateColumnWidth_eq:
  "updateColumnWidth s i =
     (s\<lparr>columnOffsetIntervalTree := (columnOffsetIntervalTree s)(i := scrollableColumns s ! nat i)\<rparr>,
      scrollableColumns s ! nat i)"
  by (simp add: updateColumnWidth_def treeSet_def Let_def)

lemma walkViewport_stop:
  "\<not> (idx < n \<and> 0 \<le> idx \<and> t < av) \<Longrightarrow> walkViewport s n av b idx e t = (s, e, t)"
  by (subst walkViewport.simps) auto

lemma walkViewport_step:
  "idx < n \<Longrightarrow> 0 \<le> idx \<Longrightarrow> t < av \<Longrightarrow>
   walkViewport s n av b idx e t =
     walkViewport (fst (updateColumnWidth s idx)) n av b (idx + (if b then - 1 else 1)) idx
       (t + scrollableColumns s ! nat idx)"
  by (subst walkViewport.simps) (simp add: updateColumnWidth_eq)

lemma walkViewport_frame:
  "walkViewport s n av b idx e t = (s', e', t') \<Longrightarrow>
   \<exists>T. s' = s\<lparr>columnOffsetIntervalTree := T\<rparr> \<and>
       (\<forall>i. T i = scrollableColumns s ! nat i \<or> T i = columnOffsetIntervalTree s i)"
proof (induction s n av b idx e t rule: walkViewport.induct)
  case (1 s n av b idx e t)
  show ?case
  proof (cases "idx < n \<and> 0 \<le> idx \<and> t < av")
    case False
    with "1.prems" have "s' = s" by (simp add: walkViewport_stop)
    then have "s' = s\<lparr>columnOffsetIntervalTree := columnOffsetIntervalTree s\<rparr>" by simp
    then show ?thesis by blast
  next
    case True
    let ?s1 = "fst (updateColumnWidth s idx)"
    have upd: "updateColumnWidth s idx = (?s1, scrollableColumns s ! nat idx)"
      by (simp add: updateColumnWidth_eq)
    from "1.prems" True
    have rec: "walkViewport ?s1 n av b (idx + (if b then - 1 else 1)) idx
                 (t + scrollableColumns s ! nat idx) = (s', e', t')"
      by (simp add: walkViewport_step)
    from "1.IH" [OF True upd [symmetric] rec] obtain T where
      T: "s' = ?s1\<lparr>columnOffsetIntervalTree := T\<rparr>"
         "\<forall>i. T i = scrollableColumns ?s1 ! nat i \<or> T i = columnOffsetIntervalTree ?s1 i"
      by blast
    have "s' = s\<lparr>columnOffsetIntervalTree := T\<rparr>"
      using T(1) by (simp add: updateColumnWidth_eq)
    moreover have "\<forall>i. T i = scrollableColumns s ! nat i \<or> T i = columnOffsetIntervalTree s i"
    proof
      fix i
      from T(2) have "T i = scrollableColumns ?s1 ! nat i \<or> T i = columnOffsetIntervalTree ?s1 i"
        by blast
      then show "T i = scrollableColumns s ! nat i \<or> T i = columnOffsetIntervalTree s i"
        by (cases "i = idx") (auto simp: updateColumnWidth_eq)
    qed
    ultimately show ?thesis by blast
  qed
qed

lemma walkViewport_end:
  "walkViewport s n av b idx e t = (s', e', t') \<Longrightarrow> 0 \<le> e \<Longrightarrow> e < n \<Longrightarrow> 0 \<le> e' \<and> e' < n"
proof (induction s n av b idx e t rule: walkViewport.induct)
  case (1 s n av b idx e t)
  show ?case
  proof (cases "idx < n \<and> 0 \<le> idx \<and> t < av")
    case False
    with "1.prems" show ?thesis by (simp add: walkViewport_stop)
  next
    case True
    let ?s1 = "fst (updateColumnWidth s idx)"
    have upd: "updateColumnWidth s idx = (?s1, scrollableColumns s ! nat idx)"
      by (simp add: updateColumnWidth_eq)
    from "1.prems" True
    have rec: "walkViewport ?s1 n av b (idx + (if b then - 1 else 1)) idx
                 (t + scrollableColumns s ! nat idx) = (s', e', t')"
      by (simp add: walkViewport_step)
    from "1.IH" [OF True upd [symmetric] rec] True show ?thesis by simp
  qed
qed

text \<open>
  The walk measures columns from \<open>0\<close> up to, not including, the column count
  only: it leaves the width stored for any other index as it was.
\<close>

lemma walkViewport_in_bounds:
  "walkViewport s n av b idx e t = (s', e', t') \<Longrightarrow> i < 0 \<or> n \<le> i \<Longrightarrow>
   columnOffsetIntervalTree s' i = columnOffsetIntervalTree s i"
proof (induction s n av b idx e t rule: walkViewport.induct)
  case (1 s n av b idx e t)
  show ?case
  proof (cases "idx < n \<and> 0 \<le> idx \<and> t < av")
    case False
    with "1.prems" show ?thesis by (simp add: walkViewport_stop)
  next
    case True
    let ?s1 = "fst (updateColumnWidth s idx)"
    have upd: "updateColumnWidth s idx = (?s1, scrollableColumns s ! nat idx)"
      by (simp add: updateColumnWidth_eq)
    from "1.prems" True
    have rec: "walkViewport ?s1 n av b (idx + (if b then - 1 else 1)) idx
                 (t + scrollableColumns s ! nat idx) = (s', e', t')"
      by (simp add: walkViewport_step)
    from "1.IH" [OF True upd [symmetric] rec "1.prems"(2)]
    have "columnOffsetIntervalTree s' i = columnOffsetIntervalTree ?s1 i" .
    also have "\<dots> = columnOffsetIntervalTree s i"
      using True "1.prems"(2) by (auto simp: updateColumnWidth_eq)
    finally show ?thesis .
  qed
qed

lemma walkBuffer_none: "bound \<le> idx \<Longrightarrow> walkBuffer s idx bound = s"
  by (subst walkBuffer.simps) simp

subsection \<open>The range calculation, case by case\<close>

lemma calc_backward:
  assumes "availableScrollWidth s \<noteq> 0" and "scrollableColumns s \<noteq> []"
    and "lastIndexClamped s a = Some k"
    and "walkViewport s (int (length (scrollableColumns s))) (availableScrollWidth s) True k k 0
           = (s1, e, T)"
  shows "calculateRenderedColumnRange s a =
     Inr (s1\<lparr>firstColumnIndex := min k e, endColumnIndex := max k e + 1,
              firstColumnOffset := min (availableScrollWidth s - T) 0\<rparr>,
          \<lparr>endBufferCol = min (max k e + 1) (int (length (scrollableColumns s))),
           endViewportCol = max k e + 1,
           firstBufferCol = max (min k e) 0, firstViewportCol = min k e\<rparr>)"
proof -
  have "lastIndexClamped s a =
     (if (case firstIndex a of None \<Rightarrow> False | Some i \<Rightarrow> i \<ge> int (length (scrollableColumns s))) \<or>
         (case lastIndex a of None \<Rightarrow> False | Some i \<Rightarrow> i \<ge> int (length (scrollableColumns s)))
      then Some (int (length (scrollableColumns s)) - 1) else lastIndex a)"
    by (simp add: lastIndexClamped_def Let_def)
  with assms(3) have cl:
    "(if (case firstIndex a of None \<Rightarrow> False | Some i \<Rightarrow> i \<ge> int (length (scrollableColumns s))) \<or>
         (case lastIndex a of None \<Rightarrow> False | Some i \<Rightarrow> i \<ge> int (length (scrollableColumns s)))
      then Some (int (length (scrollableColumns s)) - 1) else lastIndex a) = Some k"
    by simp
  show ?thesis
    unfolding calculateRenderedColumnRange_def Let_def cl
    using assms(1,2,4) by (simp add: bufferColumnCount_def walkBuffer_none)
qed

lemma calc_forward:
  assumes "availableScrollWidth s \<noteq> 0" and "scrollableColumns s \<noteq> []"
    and "lastIndexClamped s a = None" and "firstIndex a = Some f"
    and "walkViewport s (int (length (scrollableColumns s))) (availableScrollWidth s) False f f
           (firstOffset a) = (s1, e, T)"
  shows "calculateRenderedColumnRange s a =
     Inr (s1\<lparr>firstColumnIndex := min f e, endColumnIndex := max f e + 1,
              firstColumnOffset := firstOffset a\<rparr>,
          \<lparr>endBufferCol = min (max f e + 1) (int (length (scrollableColumns s))),
           endViewportCol = max f e + 1,
           firstBufferCol = max (min f e) 0, firstViewportCol = min f e\<rparr>)"
proof -
  have "lastIndexClamped s a =
     (if (case firstIndex a of None \<Rightarrow> False | Some i \<Rightarrow> i \<ge> int (length (scrollableColumns s))) \<or>
         (case lastIndex a of None \<Rightarrow> False | Some i \<Rightarrow> i \<ge> int (length (scrollableColumns s)))
      then Some (int (length (scrollableColumns s)) - 1) else lastIndex a)"
    by (simp add: lastIndexClamped_def Let_def)
  with assms(3) have cl:
    "(if (case firstIndex a of None \<Rightarrow> False | Some i \<Rightarrow> i \<ge> int (length (scrollableColumns s))) \<or>
         (case lastIndex a of None \<Rightarrow> False | Some i \<Rightarrow> i \<ge> int (length (scrollableColumns s)))
      then Some (int (length (scrollableColumns s)) - 1) else lastIndex a) = None"
    by simp
  show ?thesis
    unfolding calculateRenderedColumnRange_def Let_def cl
    using assms(1,2,4,5) by (simp add: bufferColumnCount_def walkBuffer_none)
qed

lemma calc_undefined:
  assumes "availableScrollWidth s \<noteq> 0" and "scrollableColumns s \<noteq> []"
    and "lastIndexClamped s a = None" and "firstIndex a = None"
  shows "calculateRenderedColumnRange s a = Inl NotANumber"
proof -
  have "lastIndexClamped s a =
     (if (case firstIndex a of None \<Rightarrow> False | Some i \<Rightarrow> i \<ge> int (length (scrollableColumns s))) \<or>
         (case lastIndex a of None \<Rightarrow> False | Some i \<Rightarrow> i \<ge> int (length (scrollableColumns s)))
      then Some (int (length (scrollableColumns s)) - 1) else lastIndex a)"
    by (simp add: lastIndexClamped_def Let_def)
  with assms(3) have cl:
    "(if (case firstIndex a of None \<Rightarrow> False | Some i \<Rightarrow> i \<ge> int (length (scrollableColumns s))) \<or>
         (case lastIndex a of None \<Rightarrow> False | Some i \<Rightarrow> i \<ge> int (length (scrollableColumns s)))
      then Some (int (length (scrollableColumns s)) - 1) else lastIndex a) = None"
    by simp
  show ?thesis
    unfolding calculateRenderedColumnRange_def Let_def cl
    using assms(1,2,4) by simp
qed

lemma calc_degenerate:
  assumes "availableScrollWidth s = 0 \<or> scrollableColumns s = []"
  shows "calculateRenderedColumnRange s a =
           Inr (s\<lparr>firstColumnIndex := 0, endColumnIndex := 0, firstColumnOffset := 0\<rparr>,
                \<lparr>endBufferCol = 0, endViewportCol = 0, firstBufferCol = 0, firstViewportCol = 0\<rparr>)"
  using assms by (auto simp: calculateRenderedColumnRange_def)

lemma wellFormed_start:
  assumes "anchorWellFormed a" and "scrollableColumns s \<noteq> []"
  shows "(\<exists>k. lastIndexClamped s a = Some k \<and> 0 \<le> k \<and> k < int (length (scrollableColumns s))) \<or>
         (\<exists>f. lastIndexClamped s a = None \<and> firstIndex a = Some f \<and> 0 \<le> f \<and>
              f < int (length (scrollableColumns s)))"
  using assms
  by (cases "firstIndex a"; cases "lastIndex a")
     (auto simp: anchorWellFormed_def lastIndexClamped_def Let_def)

lemma calc_wellFormed:
  assumes "anchorWellFormed a" and "availableScrollWidth s \<noteq> 0" and "scrollableColumns s \<noteq> []"
  shows "\<exists>T fv ev off.
     calculateRenderedColumnRange s a =
       Inr (s\<lparr>columnOffsetIntervalTree := T, firstColumnIndex := fv, endColumnIndex := ev,
              firstColumnOffset := off\<rparr>,
            \<lparr>endBufferCol = ev, endViewportCol = ev, firstBufferCol = fv, firstViewportCol = fv\<rparr>) \<and>
     0 \<le> fv \<and> fv < ev \<and> ev \<le> int (length (scrollableColumns s))"
proof -
  let ?n = "int (length (scrollableColumns s))" and ?av = "availableScrollWidth s"
  from wellFormed_start [OF assms(1,3)] show ?thesis
  proof (elim disjE exE conjE)
    fix k assume k: "lastIndexClamped s a = Some k" "0 \<le> k" "k < ?n"
    obtain s1 e T where w: "walkViewport s ?n ?av True k k 0 = (s1, e, T)"
      using prod_cases3 by blast
    from walkViewport_frame [OF w] obtain T' where T': "s1 = s\<lparr>columnOffsetIntervalTree := T'\<rparr>"
      by blast
    from walkViewport_end [OF w k(2,3)] have e: "0 \<le> e" "e < ?n" by auto
    have "max (min k e) 0 = min k e" "min (max k e + 1) ?n = max k e + 1"
      using k e by auto
    with calc_backward [OF assms(2,3) k(1) w] T'
    have "calculateRenderedColumnRange s a =
       Inr (s\<lparr>columnOffsetIntervalTree := T', firstColumnIndex := min k e,
              endColumnIndex := max k e + 1, firstColumnOffset := min (?av - T) 0\<rparr>,
            \<lparr>endBufferCol = max k e + 1, endViewportCol = max k e + 1,
             firstBufferCol = min k e, firstViewportCol = min k e\<rparr>)" by simp
    moreover have "0 \<le> min k e \<and> min k e < max k e + 1 \<and> max k e + 1 \<le> ?n"
      using k e by auto
    ultimately show ?thesis by blast
  next
    fix f assume f: "lastIndexClamped s a = None" "firstIndex a = Some f" "0 \<le> f" "f < ?n"
    obtain s1 e T where w: "walkViewport s ?n ?av False f f (firstOffset a) = (s1, e, T)"
      using prod_cases3 by blast
    from walkViewport_frame [OF w] obtain T' where T': "s1 = s\<lparr>columnOffsetIntervalTree := T'\<rparr>"
      by blast
    from walkViewport_end [OF w f(3,4)] have e: "0 \<le> e" "e < ?n" by auto
    have "max (min f e) 0 = min f e" "min (max f e + 1) ?n = max f e + 1"
      using f e by auto
    with calc_forward [OF assms(2,3) f(1,2) w] T'
    have "calculateRenderedColumnRange s a =
       Inr (s\<lparr>columnOffsetIntervalTree := T', firstColumnIndex := min f e,
              endColumnIndex := max f e + 1, firstColumnOffset := firstOffset a\<rparr>,
            \<lparr>endBufferCol = max f e + 1, endViewportCol = max f e + 1,
             firstBufferCol = min f e, firstViewportCol = min f e\<rparr>)" by simp
    moreover have "0 \<le> min f e \<and> min f e < max f e + 1 \<and> max f e + 1 \<le> ?n"
      using f e by auto
    ultimately show ?thesis by blast
  qed
qed

subsection \<open>One pass over the window\<close>

lemma pass_offsets:
  assumes "endBufferCol r - firstBufferCol r \<noteq> 0"
  shows "(windowStart r v < windowEnd r v \<longrightarrow>
           columnOffsets (computeRenderedColumnOffsets s r v) (windowStart r v) =
             Some (sumUntil (columnOffsetIntervalTree s) (windowStart r v))) \<and>
         (\<forall>i. windowStart r v \<le> i \<and> i + 1 < windowEnd r v \<longrightarrow>
            (\<exists>a. columnOffsets (computeRenderedColumnOffsets s r v) i = Some a \<and>
                 columnOffsets (computeRenderedColumnOffsets s r v) (i + 1) =
                   Some (a + treeGet (columnOffsetIntervalTree s) i))) \<and>
         (\<forall>i. i < windowStart r v \<or> windowEnd r v \<le> i \<longrightarrow>
            columnOffsets (computeRenderedColumnOffsets s r v) i = None)"
proof -
  from pass_unfold [OF assms, of s v] obtain bs cols offs where
    loop: "offsetsLoop (columnOffsetIntervalTree s) (windowStart r v) (windowEnd r v)
       (endBufferCol r - firstBufferCol r) (windowStart r v) (columnBufferSet s)
       (sumUntil (columnOffsetIntervalTree s) (windowStart r v)) [] Map.empty = (bs, cols, offs)"
    and res: "computeRenderedColumnOffsets s r v =
       s\<lparr>columnBufferSet := bs, columnsToRender := cols, columnOffsets := offs\<rparr>" by blast
  from offsetsLoop_offsets [OF loop] res show ?thesis by simp
qed

lemma pass_frame:
  "firstColumnIndex (computeRenderedColumnOffsets s r v) = firstColumnIndex s \<and>
   endColumnIndex (computeRenderedColumnOffsets s r v) = endColumnIndex s \<and>
   firstColumnOffset (computeRenderedColumnOffsets s r v) = firstColumnOffset s \<and>
   scrollX (computeRenderedColumnOffsets s r v) = scrollX s"
proof (cases "endBufferCol r - firstBufferCol r = 0")
  case True
  then show ?thesis by (simp add: computeRenderedColumnOffsets_def)
next
  case False
  from pass_unfold [OF False, of s v] show ?thesis by auto
qed

lemma scenario_forward_range:
  "calculateRenderedColumnRange
     (s\<lparr>availableScrollWidth := 250, scrollableColumns := [100, 100, 100, 100, 100]\<rparr>)
     \<lparr>firstIndex = Some 0, firstOffset = 0, lastIndex = None\<rparr> =
   Inr (s\<lparr>availableScrollWidth := 250, scrollableColumns := [100, 100, 100, 100, 100],
          columnOffsetIntervalTree := (columnOffsetIntervalTree s)(0 := 100, 1 := 100, 2 := 100),
          firstColumnIndex := 0, endColumnIndex := 3, firstColumnOffset := 0\<rparr>,
        \<lparr>endBufferCol = 3, endViewportCol = 3, firstBufferCol = 0, firstViewportCol = 0\<rparr>)"
  by (simp add: calculateRenderedColumnRange_def walkViewport.simps walkBuffer.simps
      bufferColumnCount_def updateColumnWidth_def treeSet_def Let_def)

lemma scenario_backward_range:
  "calculateRenderedColumnRange
     (s\<lparr>availableScrollWidth := 250, scrollableColumns := [100, 100, 100, 100, 100]\<rparr>)
     \<lparr>firstIndex = None, firstOffset = fo, lastIndex = Some 4\<rparr> =
   Inr (s\<lparr>availableScrollWidth := 250, scrollableColumns := [100, 100, 100, 100, 100],
          columnOffsetIntervalTree := (columnOffsetIntervalTree s)(4 := 100, 3 := 100, 2 := 100),
          firstColumnIndex := 2, endColumnIndex := 5, firstColumnOffset := - 50\<rparr>,
        \<lparr>endBufferCol = 5, endViewportCol = 5, firstBufferCol = 2, firstViewportCol = 2\<rparr>)"
  by (simp add: calculateRenderedColumnRange_def walkViewport.simps walkBuffer.simps
      bufferColumnCount_def updateColumnWidth_def treeSet_def Let_def)

lemma clamp_bounds: "lower \<le> upper \<Longrightarrow> lower \<le> clamp x lower upper \<and> clamp x lower upper \<le> upper"
  by (simp add: clamp_def Let_def)

lemma calc_indices:
  assumes "calculateRenderedColumnRange s a = Inr (s1, r)"
  shows "firstColumnIndex s1 = firstViewportCol r \<and> endColumnIndex s1 = endViewportCol r \<and>
         scrollX s1 = scrollX s \<and> maxScrollX s1 = maxScrollX s \<and> scrolling s1 = scrolling s"
proof (cases "availableScrollWidth s = 0 \<or> scrollableColumns s = []")
  case True
  from calc_degenerate [OF True, of a] assms show ?thesis by auto
next
  case False
  then have nd: "availableScrollWidth s \<noteq> 0" "scrollableColumns s \<noteq> []" by auto
  let ?n = "int (length (scrollableColumns s))" and ?av = "availableScrollWidth s"
  show ?thesis
  proof (cases "lastIndexClamped s a")
    case (Some k)
    obtain s2 e T where w: "walkViewport s ?n ?av True k k 0 = (s2, e, T)"
      using prod_cases3 by blast
    from walkViewport_frame [OF w] obtain T' where "s2 = s\<lparr>columnOffsetIntervalTree := T'\<rparr>"
      by blast
    with calc_backward [OF nd Some w] assms show ?thesis by auto
  next
    case None
    show ?thesis
    proof (cases "firstIndex a")
      case (Some f)
      obtain s2 e T where w: "walkViewport s ?n ?av False f f (firstOffset a) = (s2, e, T)"
        using prod_cases3 by blast
      from walkViewport_frame [OF w] obtain T' where "s2 = s\<lparr>columnOffsetIntervalTree := T'\<rparr>"
        by blast
      with calc_forward [OF nd None Some w] assms show ?thesis by auto
    next
      case none: None
      from calc_undefined [OF nd None none] assms show ?thesis by simp
    qed
  qed
qed

lemma reducer_cases:
  assumes "computeRenderedColumns s a = Inr s'"
  shows "\<exists>s1 r. calculateRenderedColumnRange s a = Inr (s1, r) \<and>
     ((firstViewportCol r \<noteq> endViewportCol r \<and>
       (\<exists>off. columnOffsets (computeRenderedColumnOffsets s1 r (scrolling s1)) (firstViewportCol r)
                = Some off \<and>
          s' = (computeRenderedColumnOffsets s1 r (scrolling s1))
                 \<lparr>scrollX := clamp (off - firstColumnOffset
                     (computeRenderedColumnOffsets s1 r (scrolling s1))) 0 (maxScrollX s)\<rparr>)) \<or>
      (firstViewportCol r = endViewportCol r \<and>
       s' = (computeRenderedColumnOffsets s1 r (scrolling s1))
              \<lparr>scrollX := clamp (scrollX s) 0 (maxScrollX s)\<rparr>))"
  using assms
  by (auto simp: computeRenderedColumns_def Let_def split: sum.splits prod.splits if_splits option.splits)

lemma reducer_wellFormed:
  assumes "anchorWellFormed a"
  shows "\<exists>s'. computeRenderedColumns s a = Inr s'"
proof (cases "availableScrollWidth s = 0 \<or> scrollableColumns s = []")
  case True
  from calc_degenerate [OF True, of a] show ?thesis
    by (simp add: computeRenderedColumns_def Let_def)
next
  case False
  then have nd: "availableScrollWidth s \<noteq> 0" "scrollableColumns s \<noteq> []" by auto
  from calc_wellFormed [OF assms nd] obtain T fv ev off where
    c: "calculateRenderedColumnRange s a =
       Inr (s\<lparr>columnOffsetIntervalTree := T, firstColumnIndex := fv, endColumnIndex := ev,
              firstColumnOffset := off\<rparr>,
            \<lparr>endBufferCol = ev, endViewportCol = ev, firstBufferCol = fv, firstViewportCol = fv\<rparr>)"
    and b: "0 \<le> fv" "fv < ev" by blast
  let ?s1 = "s\<lparr>columnOffsetIntervalTree := T, firstColumnIndex := fv, endColumnIndex := ev,
              firstColumnOffset := off\<rparr>"
  let ?r = "\<lparr>endBufferCol = ev, endViewportCol = ev, firstBufferCol = fv, firstViewportCol = fv\<rparr>"
  have ne: "endBufferCol ?r - firstBufferCol ?r \<noteq> 0" using b by simp
  have "windowStart ?r (scrolling ?s1) = fv" "windowEnd ?r (scrolling ?s1) = ev"
    by (simp_all add: windowStart_def windowEnd_def)
  with pass_offsets [OF ne, of "scrolling ?s1" ?s1] b
  have "columnOffsets (computeRenderedColumnOffsets ?s1 ?r (scrolling ?s1)) fv = Some (sumUntil T fv)"
    by simp
  with c b show ?thesis by (simp add: computeRenderedColumns_def Let_def)
qed

lemma scenario_forward_offsets:
  fixes t :: tableState
  defines "s1 \<equiv> t\<lparr>availableScrollWidth := 250, scrollableColumns := [100, 100, 100, 100, 100],
          columnOffsetIntervalTree := (columnOffsetIntervalTree t)(0 := 100, 1 := 100, 2 := 100),
          firstColumnIndex := 0, endColumnIndex := 3, firstColumnOffset := 0\<rparr>"
  shows "columnOffsets (computeRenderedColumnOffsets s1
           \<lparr>endBufferCol = 3, endViewportCol = 3, firstBufferCol = 0, firstViewportCol = 0\<rparr> v)
         = [0 \<mapsto> 0, 1 \<mapsto> 100, 2 \<mapsto> 200]"
proof -
  let ?r = "\<lparr>endBufferCol = 3, endViewportCol = 3, firstBufferCol = 0, firstViewportCol = 0\<rparr>"
  let ?co = "columnOffsets (computeRenderedColumnOffsets s1 ?r v)"
  have ne: "endBufferCol ?r - firstBufferCol ?r \<noteq> 0" by simp
  have w: "windowStart ?r v = 0" "windowEnd ?r v = 3"
    by (simp_all add: windowStart_def windowEnd_def)
  note po = pass_offsets [OF ne, of v s1, unfolded w]
  from po have c0: "?co 0 = Some 0" by (simp add: sumUntil_def)
  from po have "\<exists>a. ?co 0 = Some a \<and> ?co (0 + 1) = Some (a + treeGet (columnOffsetIntervalTree s1) 0)"
    by (elim conjE allE [of _ 0]) simp
  with c0 have c1: "?co 1 = Some 100" by (simp add: treeGet_def s1_def)
  from po have "\<exists>a. ?co 1 = Some a \<and> ?co (1 + 1) = Some (a + treeGet (columnOffsetIntervalTree s1) 1)"
    by (elim conjE allE [of _ 1]) simp
  with c1 have c2: "?co 2 = Some 200" by (simp add: treeGet_def s1_def)
  from po have out: "\<And>i. i < 0 \<or> 3 \<le> i \<Longrightarrow> ?co i = None" by blast
  show ?thesis
  proof
    fix i :: int
    consider "i < 0 \<or> 3 \<le> i" | "i = 0" | "i = 1" | "i = 2" by linarith
    then show "?co i = [0 \<mapsto> 0, 1 \<mapsto> 100, 2 \<mapsto> 200] i"
    proof cases
      case 1
      with out [OF 1] show ?thesis by auto
    qed (simp_all add: c0 c1 c2)
  qed
qed

subsection \<open>Widths recorded by the walk\<close>

lemma walkViewport_recorded:
  "walkViewport s n av b idx e t = (s', e', t') \<Longrightarrow> idx < n \<Longrightarrow> 0 \<le> idx \<Longrightarrow> t < av \<Longrightarrow>
   (if b then e' \<le> idx else idx \<le> e') \<and>
   (\<forall>i. min idx e' \<le> i \<and> i \<le> max idx e' \<longrightarrow>
      columnOffsetIntervalTree s' i = scrollableColumns s ! nat i)"
proof (induction s n av b idx e t rule: walkViewport.induct)
  case (1 s n av b idx e t)
  let ?s1 = "fst (updateColumnWidth s idx)"
  let ?w = "scrollableColumns s ! nat idx"
  let ?idx' = "idx + (if b then - 1 else 1)"
  have upd: "updateColumnWidth s idx = (?s1, ?w)"
    by (simp add: updateColumnWidth_eq)
  have run: "idx < n \<and> 0 \<le> idx \<and> t < av" using "1.prems" by simp
  from "1.prems"(1) run
  have rec: "walkViewport ?s1 n av b ?idx' idx (t + ?w) = (s', e', t')"
    by (simp add: walkViewport_step)
  have s1: "columnOffsetIntervalTree ?s1 idx = ?w" "scrollableColumns ?s1 = scrollableColumns s"
    by (simp_all add: updateColumnWidth_eq)
  show ?case
  proof (cases "?idx' < n \<and> 0 \<le> ?idx' \<and> t + ?w < av")
    case False
    then have "walkViewport ?s1 n av b ?idx' idx (t + ?w) = (?s1, idx, t + ?w)"
      by (rule walkViewport_stop)
    with rec have "s' = ?s1" "e' = idx" by auto
    moreover have "i = idx" if "idx \<le> i \<and> i \<le> idx" for i using that by simp
    ultimately show ?thesis using s1 by auto
  next
    case True
    from "1.IH" [OF run upd [symmetric] rec] True
    have ih: "(if b then e' \<le> ?idx' else ?idx' \<le> e')"
      "\<forall>i. min ?idx' e' \<le> i \<and> i \<le> max ?idx' e' \<longrightarrow>
         columnOffsetIntervalTree s' i = scrollableColumns ?s1 ! nat i"
      by auto
    from walkViewport_frame [OF rec] s1
    have here: "columnOffsetIntervalTree s' idx = ?w" by auto
    have "\<forall>i. min idx e' \<le> i \<and> i \<le> max idx e' \<longrightarrow>
      columnOffsetIntervalTree s' i = scrollableColumns s ! nat i"
    proof (intro allI impI)
      fix i assume i: "min idx e' \<le> i \<and> i \<le> max idx e'"
      show "columnOffsetIntervalTree s' i = scrollableColumns s ! nat i"
      proof (cases "i = idx")
        case True
        with here show ?thesis by simp
      next
        case False
        with i ih(1) have "min ?idx' e' \<le> i \<and> i \<le> max ?idx' e'"
          by (auto simp: min_def max_def split: if_splits)
        with ih(2) s1(2) show ?thesis by simp
      qed
    qed
    moreover from ih(1) have "if b then e' \<le> idx else idx \<le> e'" by (simp split: if_splits)
    ultimately show ?thesis by simp
  qed
qed

lemma walkViewport_measured_span:
  assumes w: "walkViewport s n av b k k t = (s1, e, T)"
    and i: "min k e \<le> i" "i + 1 < max k e + 1"
  shows "columnOffsetIntervalTree s1 i = scrollableColumns s ! nat i \<and> 0 \<le> min k e \<and> max k e < n"
proof (cases "k < n \<and> 0 \<le> k \<and> t < av")
  case False
  then have "walkViewport s n av b k k t = (s, k, t)" by (rule walkViewport_stop)
  with w have "e = k" by simp
  with i show ?thesis by simp
next
  case True
  with walkViewport_recorded [OF w] i walkViewport_end [OF w]
  show ?thesis by auto
qed

lemma reducer_offsets_measured:
  assumes r: "computeRenderedColumns s a = Inr s'"
    and i: "firstColumnIndex s' \<le> i" "i + 1 < endColumnIndex s'"
  shows "\<exists>x y. columnOffsets s' i = Some x \<and> columnOffsets s' (i + 1) = Some y \<and>
           y - x = scrollableColumns s ! nat i"
proof -
  let ?n = "int (length (scrollableColumns s))" and ?av = "availableScrollWidth s"
  from reducer_cases [OF r] obtain s1 rg where
    c: "calculateRenderedColumnRange s a = Inr (s1, rg)" and
    s': "columnOffsets s' = columnOffsets (computeRenderedColumnOffsets s1 rg (scrolling s1))"
        "firstColumnIndex s' = firstColumnIndex (computeRenderedColumnOffsets s1 rg (scrolling s1))"
        "endColumnIndex s' = endColumnIndex (computeRenderedColumnOffsets s1 rg (scrolling s1))"
    by auto
  from calc_indices [OF c] pass_frame [of s1 rg "scrolling s1"] s'
  have fe: "firstColumnIndex s' = firstViewportCol rg" "endColumnIndex s' = endViewportCol rg"
    by simp_all
  have nd: "availableScrollWidth s \<noteq> 0" "scrollableColumns s \<noteq> []"
  proof -
    have "\<not> (availableScrollWidth s = 0 \<or> scrollableColumns s = [])"
    proof
      assume d: "availableScrollWidth s = 0 \<or> scrollableColumns s = []"
      from calc_degenerate [OF d, of a] c fe i show False by auto
    qed
    then show "availableScrollWidth s \<noteq> 0" "scrollableColumns s \<noteq> []" by auto
  qed
  have main: "\<exists>T. columnOffsetIntervalTree s1 = T \<and> T i = scrollableColumns s ! nat i \<and>
      firstBufferCol rg = firstViewportCol rg \<and> endBufferCol rg = endViewportCol rg"
  proof (cases "lastIndexClamped s a")
    case (Some k)
    obtain s2 e T where w: "walkViewport s ?n ?av True k k 0 = (s2, e, T)"
      using prod_cases3 by blast
    from calc_backward [OF nd Some w] c
    have eq: "s1 = s2\<lparr>firstColumnIndex := min k e, endColumnIndex := max k e + 1,
              firstColumnOffset := min (?av - T) 0\<rparr>"
      "firstViewportCol rg = min k e" "endViewportCol rg = max k e + 1"
      "firstBufferCol rg = max (min k e) 0" "endBufferCol rg = min (max k e + 1) ?n"
      by auto
    from walkViewport_measured_span [OF w, of i] i fe eq(2,3)
    have m: "columnOffsetIntervalTree s2 i = scrollableColumns s ! nat i"
      "0 \<le> min k e" "max k e < ?n" by auto
    then have "max (min k e) 0 = min k e" "min (max k e + 1) ?n = max k e + 1" by linarith+
    with m(1) eq show ?thesis by simp
  next
    case None
    show ?thesis
    proof (cases "firstIndex a")
      case none: None
      from calc_undefined [OF nd None none] c show ?thesis by simp
    next
      case (Some f)
      obtain s2 e T where w: "walkViewport s ?n ?av False f f (firstOffset a) = (s2, e, T)"
        using prod_cases3 by blast
      from calc_forward [OF nd None Some w] c
      have eq: "s1 = s2\<lparr>firstColumnIndex := min f e, endColumnIndex := max f e + 1,
                firstColumnOffset := firstOffset a\<rparr>"
        "firstViewportCol rg = min f e" "endViewportCol rg = max f e + 1"
        "firstBufferCol rg = max (min f e) 0" "endBufferCol rg = min (max f e + 1) ?n"
        by auto
      from walkViewport_measured_span [OF w, of i] i fe eq(2,3)
      have m: "columnOffsetIntervalTree s2 i = scrollableColumns s ! nat i"
        "0 \<le> min f e" "max f e < ?n" by auto
      then have "max (min f e) 0 = min f e" "min (max f e + 1) ?n = max f e + 1" by linarith+
      with m(1) eq show ?thesis by simp
    qed
  qed
  then have T: "columnOffsetIntervalTree s1 i = scrollableColumns s ! nat i"
    and bv: "firstBufferCol rg = firstViewportCol rg" "endBufferCol rg = endViewportCol rg"
    by auto
  have ne: "endBufferCol rg - firstBufferCol rg \<noteq> 0" using bv fe i by simp
  have win: "windowStart rg (scrolling s1) = firstViewportCol rg"
    "windowEnd rg (scrolling s1) = endViewportCol rg"
    using bv by (simp_all add: windowStart_def windowEnd_def)
  from pass_offsets [OF ne, of "scrolling s1" s1] win fe i
  obtain x where "columnOffsets (computeRenderedColumnOffsets s1 rg (scrolling s1)) i = Some x"
    "columnOffsets (computeRenderedColumnOffsets s1 rg (scrolling s1)) (i + 1) =
       Some (x + treeGet (columnOffsetIntervalTree s1) i)"
    by auto
  with s'(1) T show ?thesis by (simp add: treeGet_def)
qed

subsection \<open>Offsets of consecutive columns\<close>

text \<open>
  Claim C1.  When \<^verbatim>\<open>computeRenderedColumnOffsets\<close> iterates a non-empty window,
  the offset it records for the first column of the window is the prefix sum of
  the Offset Store up to that column, and the offsets of two consecutive columns
  of the window differ by the stored width of the first of the two.  In a state
  returned by the reducer, the offsets of two consecutive columns of the viewport
  span differ by the measured width of the first of the two.  For five columns of
  width 100, an available width of 250 and the forward anchor with first index 0
  and first offset 0, whatever the rest of the state is, the range has the
  viewport and buffer bounds 0 and 3 and the reducer records the offsets 0, 100
  and 200 for the columns 0, 1 and 2 and no other.
\<close>

theorem offsets_consecutive:
  "(endBufferCol r - firstBufferCol r \<noteq> 0 \<and> windowStart r v < windowEnd r v \<longrightarrow>
      columnOffsets (computeRenderedColumnOffsets s r v) (windowStart r v) =
        Some (sumUntil (columnOffsetIntervalTree s) (windowStart r v)) \<and>
      (\<forall>i. windowStart r v \<le> i \<and> i + 1 < windowEnd r v \<longrightarrow>
         (\<exists>x y. columnOffsets (computeRenderedColumnOffsets s r v) i = Some x \<and>
                columnOffsets (computeRenderedColumnOffsets s r v) (i + 1) = Some y \<and>
                y - x = treeGet (columnOffsetIntervalTree s) i))) \<and>
   (computeRenderedColumns u a = Inr u' \<and> firstColumnIndex u' \<le> j \<and> j + 1 < endColumnIndex u' \<longrightarrow>
      (\<exists>x y. columnOffsets u' j = Some x \<and> columnOffsets u' (j + 1) = Some y \<and>
             y - x = scrollableColumns u ! nat j)) \<and>
   (\<exists>s1 s'.
      calculateRenderedColumnRange
        (t\<lparr>availableScrollWidth := 250, scrollableColumns := [100, 100, 100, 100, 100]\<rparr>)
        \<lparr>firstIndex = Some 0, firstOffset = 0, lastIndex = None\<rparr> =
        Inr (s1, \<lparr>endBufferCol = 3, endViewportCol = 3, firstBufferCol = 0, firstViewportCol = 0\<rparr>) \<and>
      computeRenderedColumns
        (t\<lparr>availableScrollWidth := 250, scrollableColumns := [100, 100, 100, 100, 100]\<rparr>)
        \<lparr>firstIndex = Some 0, firstOffset = 0, lastIndex = None\<rparr> = Inr s' \<and>
      columnOffsets s' = [0 \<mapsto> 0, 1 \<mapsto> 100, 2 \<mapsto> 200] \<and>
      firstColumnIndex s' = 0 \<and> endColumnIndex s' = 3 \<and> firstColumnOffset s' = 0)"
proof (intro conjI impI)
  assume a: "endBufferCol r - firstBufferCol r \<noteq> 0 \<and> windowStart r v < windowEnd r v"
  then have ne: "endBufferCol r - firstBufferCol r \<noteq> 0" by simp
  from pass_offsets [OF ne, of v s] a
  show "columnOffsets (computeRenderedColumnOffsets s r v) (windowStart r v) =
        Some (sumUntil (columnOffsetIntervalTree s) (windowStart r v))" by simp
  show "\<forall>i. windowStart r v \<le> i \<and> i + 1 < windowEnd r v \<longrightarrow>
         (\<exists>x y. columnOffsets (computeRenderedColumnOffsets s r v) i = Some x \<and>
                columnOffsets (computeRenderedColumnOffsets s r v) (i + 1) = Some y \<and>
                y - x = treeGet (columnOffsetIntervalTree s) i)"
  proof (intro allI impI)
    fix i assume i: "windowStart r v \<le> i \<and> i + 1 < windowEnd r v"
    with pass_offsets [OF ne, of v s] obtain x where
      "columnOffsets (computeRenderedColumnOffsets s r v) i = Some x"
      "columnOffsets (computeRenderedColumnOffsets s r v) (i + 1) =
         Some (x + treeGet (columnOffsetIntervalTree s) i)" by blast
    then show "\<exists>x y. columnOffsets (computeRenderedColumnOffsets s r v) i = Some x \<and>
                columnOffsets (computeRenderedColumnOffsets s r v) (i + 1) = Some y \<and>
                y - x = treeGet (columnOffsetIntervalTree s) i" by simp
  qed
next
  assume "computeRenderedColumns u a = Inr u' \<and> firstColumnIndex u' \<le> j \<and>
    j + 1 < endColumnIndex u'"
  then show "\<exists>x y. columnOffsets u' j = Some x \<and> columnOffsets u' (j + 1) = Some y \<and>
             y - x = scrollableColumns u ! nat j"
    using reducer_offsets_measured [of u a u' j] by blast
next
  let ?t = "t\<lparr>availableScrollWidth := 250, scrollableColumns := [100, 100, 100, 100, 100]\<rparr>"
  let ?a = "\<lparr>firstIndex = Some 0, firstOffset = 0, lastIndex = None\<rparr>"
  let ?r = "\<lparr>endBufferCol = 3, endViewportCol = 3, firstBufferCol = 0, firstViewportCol = 0\<rparr>"
  let ?s1 = "t\<lparr>availableScrollWidth := 250, scrollableColumns := [100, 100, 100, 100, 100],
          columnOffsetIntervalTree := (columnOffsetIntervalTree t)(0 := 100, 1 := 100, 2 := 100),
          firstColumnIndex := 0, endColumnIndex := 3, firstColumnOffset := 0\<rparr>"
  let ?ns = "computeRenderedColumnOffsets ?s1 ?r (scrolling ?s1)"
  have c: "calculateRenderedColumnRange ?t ?a = Inr (?s1, ?r)"
    by (rule scenario_forward_range)
  have co: "columnOffsets ?ns = [0 \<mapsto> 0, 1 \<mapsto> 100, 2 \<mapsto> 200]"
    by (rule scenario_forward_offsets)
  have fr: "firstColumnIndex ?ns = 0" "endColumnIndex ?ns = 3" "firstColumnOffset ?ns = 0"
    using pass_frame [of ?s1 ?r "scrolling ?s1"] by simp_all
  have "computeRenderedColumns ?t ?a = Inr (?ns\<lparr>scrollX := clamp (0 - 0) 0 (maxScrollX ?t)\<rparr>)"
    unfolding computeRenderedColumns_def c using co fr by (simp add: Let_def)
  with c co fr show "\<exists>s1 s'.
      calculateRenderedColumnRange ?t ?a = Inr (s1, ?r) \<and>
      computeRenderedColumns ?t ?a = Inr s' \<and>
      columnOffsets s' = [0 \<mapsto> 0, 1 \<mapsto> 100, 2 \<mapsto> 200] \<and>
      firstColumnIndex s' = 0 \<and> endColumnIndex s' = 3 \<and> firstColumnOffset s' = 0"
    by simp
qed

theorem offsets_consecutive_witness:
  "endBufferCol \<lparr>endBufferCol = 4, endViewportCol = 4, firstBufferCol = 1, firstViewportCol = 2\<rparr> -
     firstBufferCol \<lparr>endBufferCol = 4, endViewportCol = 4, firstBufferCol = 1, firstViewportCol = 2\<rparr>
     \<noteq> 0 \<and>
   windowStart \<lparr>endBufferCol = 4, endViewportCol = 4, firstBufferCol = 1, firstViewportCol = 2\<rparr> False = 1 \<and>
   windowEnd \<lparr>endBufferCol = 4, endViewportCol = 4, firstBufferCol = 1, firstViewportCol = 2\<rparr> False = 4 \<and>
   columnOffsets
     (computeRenderedColumnOffsets
        ((freshTable [70, 80, 90, 60] 200 100)\<lparr>columnOffsetIntervalTree := (\<lambda>i. 10 * i + 70)\<rparr>)
        \<lparr>endBufferCol = 4, endViewportCol = 4, firstBufferCol = 1, firstViewportCol = 2\<rparr> False) 1
     = Some 70 \<and>
   (\<exists>x y.
      columnOffsets
        (computeRenderedColumnOffsets
           ((freshTable [70, 80, 90, 60] 200 100)\<lparr>columnOffsetIntervalTree := (\<lambda>i. 10 * i + 70)\<rparr>)
           \<lparr>endBufferCol = 4, endViewportCol = 4, firstBufferCol = 1, firstViewportCol = 2\<rparr> False) 2
        = Some x \<and>
      columnOffsets
        (computeRenderedColumnOffsets
           ((freshTable [70, 80, 90, 60] 200 100)\<lparr>columnOffsetIntervalTree := (\<lambda>i. 10 * i + 70)\<rparr>)
           \<lparr>endBufferCol = 4, endViewportCol = 4, firstBufferCol = 1, firstViewportCol = 2\<rparr> False) 3
        = Some y \<and>
      y - x = 90) \<and>
   computeRenderedColumns (freshTable [70, 80, 90, 60] 200 100)
       \<lparr>firstIndex = Some 1, firstOffset = - 10, lastIndex = None\<rparr> =
     Inr (projr (computeRenderedColumns (freshTable [70, 80, 90, 60] 200 100)
       \<lparr>firstIndex = Some 1, firstOffset = - 10, lastIndex = None\<rparr>)) \<and>
   firstColumnIndex (projr (computeRenderedColumns (freshTable [70, 80, 90, 60] 200 100)
       \<lparr>firstIndex = Some 1, firstOffset = - 10, lastIndex = None\<rparr>)) = 1 \<and>
   endColumnIndex (projr (computeRenderedColumns (freshTable [70, 80, 90, 60] 200 100)
       \<lparr>firstIndex = Some 1, firstOffset = - 10, lastIndex = None\<rparr>)) = 4 \<and>
   (\<exists>x y.
      columnOffsets (projr (computeRenderedColumns (freshTable [70, 80, 90, 60] 200 100)
        \<lparr>firstIndex = Some 1, firstOffset = - 10, lastIndex = None\<rparr>)) 2 = Some x \<and>
      columnOffsets (projr (computeRenderedColumns (freshTable [70, 80, 90, 60] 200 100)
        \<lparr>firstIndex = Some 1, firstOffset = - 10, lastIndex = None\<rparr>)) 3 = Some y \<and>
      y - x = 90)"
proof -
  let ?r = "\<lparr>endBufferCol = 4, endViewportCol = 4, firstBufferCol = 1, firstViewportCol = 2\<rparr>"
  let ?s = "(freshTable [70, 80, 90, 60] 200 100)\<lparr>columnOffsetIntervalTree := (\<lambda>i. 10 * i + 70)\<rparr>"
  let ?u = "freshTable [70, 80, 90, 60] 200 100"
  let ?a = "\<lparr>firstIndex = Some 1, firstOffset = - 10, lastIndex = None\<rparr>"
  let ?u' = "projr (computeRenderedColumns ?u ?a)"
  let ?co = "columnOffsets (computeRenderedColumnOffsets ?s ?r False)"
  have h1: "endBufferCol ?r - firstBufferCol ?r \<noteq> 0" by simp
  have h2: "windowStart ?r False = 1" "windowEnd ?r False = 4"
    by (simp_all add: windowStart_def windowEnd_def)
  have h3: "sumUntil (columnOffsetIntervalTree ?s) 1 = 70" "treeGet (columnOffsetIntervalTree ?s) 2 = 90"
    by (simp_all add: sumUntil_def treeGet_def)
  have wf: "anchorWellFormed ?a" by (simp add: anchorWellFormed_def)
  have h4: "computeRenderedColumns ?u ?a = Inr ?u'"
    using reducer_wellFormed [OF wf, of ?u] by auto
  have h5: "firstColumnIndex ?u' = 1" "endColumnIndex ?u' = 4"
    by code_simp+
  have h6: "scrollableColumns ?u ! nat 2 = 90" by (simp add: freshTable_def)
  note inst = offsets_consecutive [of ?r False ?s ?u ?a ?u' 2 ?s, unfolded h2]
  from inst h1 have a: "?co 1 = Some (sumUntil (columnOffsetIntervalTree ?s) 1)" by simp
  from inst h1 have "\<forall>i. 1 \<le> i \<and> i + 1 < 4 \<longrightarrow>
      (\<exists>x y. ?co i = Some x \<and> ?co (i + 1) = Some y \<and>
         y - x = treeGet (columnOffsetIntervalTree ?s) i)" by simp
  then have "(1::int) \<le> 2 \<and> (2::int) + 1 < 4 \<longrightarrow>
      (\<exists>x y. ?co 2 = Some x \<and> ?co (2 + 1) = Some y \<and>
         y - x = treeGet (columnOffsetIntervalTree ?s) 2)" by (rule spec)
  then have b: "\<exists>x y. ?co 2 = Some x \<and> ?co 3 = Some y \<and> y - x = 90"
    using h3(2) by simp
  from inst h4 h5 have "\<exists>x y. columnOffsets ?u' 2 = Some x \<and> columnOffsets ?u' (2 + 1) = Some y \<and>
      y - x = scrollableColumns ?u ! nat 2" by simp
  then have c: "\<exists>x y. columnOffsets ?u' 2 = Some x \<and> columnOffsets ?u' 3 = Some y \<and> y - x = 90"
    using h6 by simp
  from a b c h1 h2 h3(1) h4 h5 show ?thesis by simp
qed

subsection \<open>The scroll position\<close>

text \<open>
  Claim C2.  Whenever \<^verbatim>\<open>computeRenderedColumns\<close> returns a state, its
  \<^verbatim>\<open>scrollX\<close> is, for a non-empty viewport span, the recorded offset of the first
  viewport column minus the first column offset, and for an empty span the
  \<^verbatim>\<open>scrollX\<close> of the input state; in both cases clamped with the bounds \<open>0\<close> and
  \<^verbatim>\<open>maxScrollX\<close> of the input state, so that it lies between them when
  \<^verbatim>\<open>maxScrollX\<close> is not negative.  For every state and every well-formed anchor
  the reducer does return a state.
\<close>

theorem scrollX_reconciled:
  "(computeRenderedColumns s a = Inr s' \<longrightarrow>
      (firstColumnIndex s' \<noteq> endColumnIndex s' \<longrightarrow>
         (\<exists>off. columnOffsets s' (firstColumnIndex s') = Some off \<and>
                scrollX s' = clamp (off - firstColumnOffset s') 0 (maxScrollX s))) \<and>
      (firstColumnIndex s' = endColumnIndex s' \<longrightarrow>
         scrollX s' = clamp (scrollX s) 0 (maxScrollX s)) \<and>
      (0 \<le> maxScrollX s \<longrightarrow> 0 \<le> scrollX s' \<and> scrollX s' \<le> maxScrollX s)) \<and>
   (anchorWellFormed a \<longrightarrow> (\<exists>s''. computeRenderedColumns s a = Inr s''))"
proof (intro conjI impI)
  assume "anchorWellFormed a"
  then show "\<exists>s''. computeRenderedColumns s a = Inr s''" by (rule reducer_wellFormed)
next
  assume r: "computeRenderedColumns s a = Inr s'"
  from reducer_cases [OF r] obtain s1 r where
    c: "calculateRenderedColumnRange s a = Inr (s1, r)" and
    d: "(firstViewportCol r \<noteq> endViewportCol r \<and>
       (\<exists>off. columnOffsets (computeRenderedColumnOffsets s1 r (scrolling s1)) (firstViewportCol r)
                = Some off \<and>
          s' = (computeRenderedColumnOffsets s1 r (scrolling s1))
                 \<lparr>scrollX := clamp (off - firstColumnOffset
                     (computeRenderedColumnOffsets s1 r (scrolling s1))) 0 (maxScrollX s)\<rparr>)) \<or>
      (firstViewportCol r = endViewportCol r \<and>
       s' = (computeRenderedColumnOffsets s1 r (scrolling s1))
              \<lparr>scrollX := clamp (scrollX s) 0 (maxScrollX s)\<rparr>)" by blast
  note idx = calc_indices [OF c] and fr = pass_frame [of s1 r "scrolling s1"]
  have fi: "firstColumnIndex s' = firstViewportCol r" "endColumnIndex s' = endViewportCol r"
    using d idx fr by auto
  {
    assume ne: "firstColumnIndex s' \<noteq> endColumnIndex s'"
    with fi d show "\<exists>off. columnOffsets s' (firstColumnIndex s') = Some off \<and>
                scrollX s' = clamp (off - firstColumnOffset s') 0 (maxScrollX s)"
      by auto
  }
  {
    assume "firstColumnIndex s' = endColumnIndex s'"
    with fi d show "scrollX s' = clamp (scrollX s) 0 (maxScrollX s)" by auto
  }
  {
    assume m: "0 \<le> maxScrollX s"
    from d have "\<exists>x. scrollX s' = clamp x 0 (maxScrollX s)" by auto
    with clamp_bounds [OF m] show "0 \<le> scrollX s'" "scrollX s' \<le> maxScrollX s" by auto
  }
qed

theorem scrollX_reconciled_witness:
  "anchorWellFormed \<lparr>firstIndex = None, firstOffset = 0, lastIndex = Some 4\<rparr> \<and>
   computeRenderedColumns (freshTable [100, 100, 100, 100, 100] 250 40)
       \<lparr>firstIndex = None, firstOffset = 0, lastIndex = Some 4\<rparr> =
     Inr (projr (computeRenderedColumns (freshTable [100, 100, 100, 100, 100] 250 40)
       \<lparr>firstIndex = None, firstOffset = 0, lastIndex = Some 4\<rparr>)) \<and>
   firstColumnIndex (projr (computeRenderedColumns (freshTable [100, 100, 100, 100, 100] 250 40)
       \<lparr>firstIndex = None, firstOffset = 0, lastIndex = Some 4\<rparr>)) = 2 \<and>
   endColumnIndex (projr (computeRenderedColumns (freshTable [100, 100, 100, 100, 100] 250 40)
       \<lparr>firstIndex = None, firstOffset = 0, lastIndex = Some 4\<rparr>)) = 5 \<and>
   (0::int) \<le> maxScrollX (freshTable [100, 100, 100, 100, 100] 250 40) \<and>
   scrollX (projr (computeRenderedColumns (freshTable [100, 100, 100, 100, 100] 250 40)
       \<lparr>firstIndex = None, firstOffset = 0, lastIndex = Some 4\<rparr>)) = 40 \<and>
   (\<exists>off. columnOffsets (projr (computeRenderedColumns (freshTable [100, 100, 100, 100, 100] 250 40)
       \<lparr>firstIndex = None, firstOffset = 0, lastIndex = Some 4\<rparr>)) 2 = Some off \<and>
     clamp (off - firstColumnOffset (projr (computeRenderedColumns
        (freshTable [100, 100, 100, 100, 100] 250 40)
        \<lparr>firstIndex = None, firstOffset = 0, lastIndex = Some 4\<rparr>))) 0 40 = 40) \<and>
   computeRenderedColumns ((freshTable [] 250 40)\<lparr>scrollX := 70\<rparr>)
       \<lparr>firstIndex = None, firstOffset = 0, lastIndex = Some 4\<rparr> =
     Inr (projr (computeRenderedColumns ((freshTable [] 250 40)\<lparr>scrollX := 70\<rparr>)
       \<lparr>firstIndex = None, firstOffset = 0, lastIndex = Some 4\<rparr>)) \<and>
   firstColumnIndex (projr (computeRenderedColumns ((freshTable [] 250 40)\<lparr>scrollX := 70\<rparr>)
       \<lparr>firstIndex = None, firstOffset = 0, lastIndex = Some 4\<rparr>)) =
     endColumnIndex (projr (computeRenderedColumns ((freshTable [] 250 40)\<lparr>scrollX := 70\<rparr>)
       \<lparr>firstIndex = None, firstOffset = 0, lastIndex = Some 4\<rparr>)) \<and>
   scrollX (projr (computeRenderedColumns ((freshTable [] 250 40)\<lparr>scrollX := 70\<rparr>)
       \<lparr>firstIndex = None, firstOffset = 0, lastIndex = Some 4\<rparr>)) = clamp 70 0 40"
proof -
  let ?s = "freshTable [100, 100, 100, 100, 100] 250 40"
  let ?e = "(freshTable [] 250 40)\<lparr>scrollX := 70\<rparr>"
  let ?a = "\<lparr>firstIndex = None, firstOffset = 0, lastIndex = Some 4\<rparr>"
  let ?s' = "projr (computeRenderedColumns ?s ?a)"
  let ?e' = "projr (computeRenderedColumns ?e ?a)"
  have wf: "anchorWellFormed ?a" by (simp add: anchorWellFormed_def)
  have m: "maxScrollX ?s = 40" "maxScrollX ?e = 40" "scrollX ?e = 70"
    by (simp_all add: freshTable_def)
  from scrollX_reconciled [of ?s ?a undefined] wf
  have r: "computeRenderedColumns ?s ?a = Inr ?s'" by auto
  from scrollX_reconciled [of ?e ?a undefined] wf
  have re: "computeRenderedColumns ?e ?a = Inr ?e'" by auto
  have i: "firstColumnIndex ?s' = 2" "endColumnIndex ?s' = 5" "scrollX ?s' = 40"
    by code_simp+
  have ie: "firstColumnIndex ?e' = endColumnIndex ?e'"
    by code_simp
  from scrollX_reconciled [of ?e ?a ?e'] re ie m
  have "scrollX ?e' = clamp 70 0 40" by simp
  with scrollX_reconciled [of ?s ?a ?s'] r re i ie m wf show ?thesis by auto
qed

subsection \<open>Order and bounds of the range\<close>

text \<open>
  Claim C4.  For every state and every well-formed anchor (an index at or beyond
  the column count being clamped by the source), the range calculation returns a
  range whose first buffer column is at most the first viewport column, which is
  at most the end viewport column, which is at most the end buffer column; the
  first buffer column is not negative and the end buffer column is at most the
  column count, so all four bounds lie between \<open>0\<close> and the column count.
\<close>

theorem range_ordered_in_bounds:
  assumes "anchorWellFormed a"
  shows "\<exists>s' r. calculateRenderedColumnRange s a = Inr (s', r) \<and>
     firstBufferCol r \<le> firstViewportCol r \<and> firstViewportCol r \<le> endViewportCol r \<and>
     endViewportCol r \<le> endBufferCol r \<and>
     0 \<le> firstBufferCol r \<and> endBufferCol r \<le> int (length (scrollableColumns s))"
proof (cases "availableScrollWidth s = 0 \<or> scrollableColumns s = []")
  case True
  from calc_degenerate [OF True, of a] show ?thesis by simp
next
  case False
  then have nd: "availableScrollWidth s \<noteq> 0" "scrollableColumns s \<noteq> []" by auto
  from calc_wellFormed [OF assms nd] show ?thesis by auto
qed

theorem range_ordered_in_bounds_witness:
  "anchorWellFormed \<lparr>firstIndex = Some 9, firstOffset = - 20, lastIndex = None\<rparr> \<and>
   (\<exists>s'. calculateRenderedColumnRange (freshTable [100, 100, 100, 100, 100] 250 250)
           \<lparr>firstIndex = Some 9, firstOffset = - 20, lastIndex = None\<rparr> =
         Inr (s', \<lparr>endBufferCol = 5, endViewportCol = 5, firstBufferCol = 2, firstViewportCol = 2\<rparr>))"
proof -
  let ?s = "freshTable [100, 100, 100, 100, 100] 250 250"
  let ?a = "\<lparr>firstIndex = Some 9, firstOffset = - 20, lastIndex = None\<rparr>"
  have wf: "anchorWellFormed ?a" by (simp add: anchorWellFormed_def)
  from range_ordered_in_bounds [OF wf, of ?s] obtain s' r where
    c: "calculateRenderedColumnRange ?s ?a = Inr (s', r)" by blast
  have "snd (projr (calculateRenderedColumnRange ?s ?a)) =
      \<lparr>endBufferCol = 5, endViewportCol = 5, firstBufferCol = 2, firstViewportCol = 2\<rparr>"
    by code_simp
  with c have "r = \<lparr>endBufferCol = 5, endViewportCol = 5, firstBufferCol = 2, firstViewportCol = 2\<rparr>"
    by simp
  with c wf show ?thesis by blast
qed

subsection \<open>Buffer and viewport coincide\<close>

text \<open>
  Claim C10.  The buffer column count is \<open>0\<close>.  For every state and every
  well-formed anchor the range returned by the range calculation has its first
  buffer column equal to its first viewport column and its end buffer column
  equal to its end viewport column, and on such a range
  \<^verbatim>\<open>computeRenderedColumnOffsets\<close> returns the same state, hence the same offsets
  and the same columns to render, whether \<^verbatim>\<open>viewportOnly\<close> is true or false.
\<close>

theorem buffer_is_viewport:
  assumes "anchorWellFormed a"
  shows "bufferColumnCount = 0 \<and>
     (\<exists>s' r. calculateRenderedColumnRange s a = Inr (s', r) \<and>
        firstBufferCol r = firstViewportCol r \<and> endBufferCol r = endViewportCol r \<and>
        (\<forall>st. computeRenderedColumnOffsets st r True = computeRenderedColumnOffsets st r False))"
proof -
  have "\<exists>s' r. calculateRenderedColumnRange s a = Inr (s', r) \<and>
        firstBufferCol r = firstViewportCol r \<and> endBufferCol r = endViewportCol r"
  proof (cases "availableScrollWidth s = 0 \<or> scrollableColumns s = []")
    case True
    from calc_degenerate [OF True, of a] show ?thesis by simp
  next
    case False
    then have nd: "availableScrollWidth s \<noteq> 0" "scrollableColumns s \<noteq> []" by auto
    from calc_wellFormed [OF assms nd] show ?thesis by auto
  qed
  then obtain s' r where c: "calculateRenderedColumnRange s a = Inr (s', r)"
    and e: "firstBufferCol r = firstViewportCol r" "endBufferCol r = endViewportCol r" by blast
  have "\<forall>st. computeRenderedColumnOffsets st r True = computeRenderedColumnOffsets st r False"
    using e by (simp add: computeRenderedColumnOffsets_def)
  with c e show ?thesis by (auto simp: bufferColumnCount_def)
qed

theorem buffer_is_viewport_witness:
  "anchorWellFormed \<lparr>firstIndex = Some 1, firstOffset = - 20, lastIndex = None\<rparr> \<and>
   (\<exists>s'. calculateRenderedColumnRange (freshTable [100, 100, 100, 100, 100] 250 250)
           \<lparr>firstIndex = Some 1, firstOffset = - 20, lastIndex = None\<rparr> =
         Inr (s', \<lparr>endBufferCol = 4, endViewportCol = 4, firstBufferCol = 1, firstViewportCol = 1\<rparr>)) \<and>
   computeRenderedColumnOffsets (freshTable [100, 100, 100, 100, 100] 250 250)
     \<lparr>endBufferCol = 4, endViewportCol = 4, firstBufferCol = 1, firstViewportCol = 1\<rparr> True =
   computeRenderedColumnOffsets (freshTable [100, 100, 100, 100, 100] 250 250)
     \<lparr>endBufferCol = 4, endViewportCol = 4, firstBufferCol = 1, firstViewportCol = 1\<rparr> False"
proof -
  let ?s = "freshTable [100, 100, 100, 100, 100] 250 250"
  let ?a = "\<lparr>firstIndex = Some 1, firstOffset = - 20, lastIndex = None\<rparr>"
  have wf: "anchorWellFormed ?a" by (simp add: anchorWellFormed_def)
  from buffer_is_viewport [OF wf, of ?s] obtain s' r where
    c: "calculateRenderedColumnRange ?s ?a = Inr (s', r)"
    and e: "\<forall>st. computeRenderedColumnOffsets st r True = computeRenderedColumnOffsets st r False"
    by blast
  have "snd (projr (calculateRenderedColumnRange ?s ?a)) =
      \<lparr>endBufferCol = 4, endViewportCol = 4, firstBufferCol = 1, firstViewportCol = 1\<rparr>"
    by code_simp
  with c have "r = \<lparr>endBufferCol = 4, endViewportCol = 4, firstBufferCol = 1, firstViewportCol = 1\<rparr>"
    by simp
  with c e wf show ?thesis by blast
qed

subsection \<open>The walk in terms of span widths\<close>

lemma updateColumnWidth_widths:
  "scrollableColumns (fst (updateColumnWidth s i)) = scrollableColumns s"
  by (simp add: updateColumnWidth_eq)

lemma walk_backward_spec:
  "walkViewport s n av b idx e t = (s', e', t') \<Longrightarrow> b \<Longrightarrow> scrollableColumns s = ws \<Longrightarrow>
   0 \<le> idx \<Longrightarrow> idx < n \<Longrightarrow> t < av \<Longrightarrow>
   0 \<le> e' \<and> e' \<le> idx \<and> t' = t + spanWidth ws e' (idx + 1) \<and>
   (\<forall>j. e' < j \<and> j \<le> idx \<longrightarrow> t + spanWidth ws j (idx + 1) < av) \<and>
   (av \<le> t' \<or> e' = 0)"
proof (induction s n av b idx e t rule: walkViewport.induct)
  case (1 s n av b idx e t)
  let ?s1 = "fst (updateColumnWidth s idx)"
  let ?w = "scrollableColumns s ! nat idx"
  have weq: "?w = ws ! nat idx" using "1.prems"(3) by simp
  have upd: "updateColumnWidth s idx = (?s1, scrollableColumns s ! nat idx)"
    by (simp add: updateColumnWidth_eq)
  have run: "idx < n \<and> 0 \<le> idx \<and> t < av" using "1.prems" by simp
  from "1.prems"(1,2,3) run
  have rec: "walkViewport ?s1 n av b (idx + (if b then - 1 else 1)) idx (t + ?w) = (s', e', t')"
    by (simp add: walkViewport_step)
  have sw: "scrollableColumns ?s1 = ws" using "1.prems"(3) by (simp add: updateColumnWidth_widths)
  have one: "spanWidth ws idx (idx + 1) = ?w" using weq by (simp add: spanWidth_single)
  show ?case
  proof (cases "0 \<le> idx - 1 \<and> t + ?w < av")
    case False
    with "1.prems"(2)
    have "walkViewport ?s1 n av b (idx + (if b then - 1 else 1)) idx (t + ?w) = (?s1, idx, t + ?w)"
      by (intro walkViewport_stop) auto
    with rec have "e' = idx" "t' = t + ?w" by auto
    with False run one show ?thesis by auto
  next
    case True
    with "1.prems"(2) "1.prems"(5)
    have ih: "0 \<le> e' \<and> e' \<le> idx - 1 \<and> t' = t + ?w + spanWidth ws e' (idx - 1 + 1) \<and>
       (\<forall>j. e' < j \<and> j \<le> idx - 1 \<longrightarrow> t + ?w + spanWidth ws j (idx - 1 + 1) < av) \<and>
       (av \<le> t' \<or> e' = 0)"
      using "1.IH" [OF run upd [symmetric] rec "1.prems"(2) sw] by auto
    have tail: "\<And>j. j \<le> idx \<Longrightarrow> spanWidth ws j (idx + 1) = spanWidth ws j idx + ?w"
      using spanWidth_tail [of _ "idx + 1" ws] weq by simp
    from ih have "t' = t + spanWidth ws e' (idx + 1)" using tail [of e'] by simp
    moreover have "\<forall>j. e' < j \<and> j \<le> idx \<longrightarrow> t + spanWidth ws j (idx + 1) < av"
    proof (intro allI impI)
      fix j assume j: "e' < j \<and> j \<le> idx"
      show "t + spanWidth ws j (idx + 1) < av"
      proof (cases "j = idx")
        case True
        with one \<open>0 \<le> idx - 1 \<and> t + ?w < av\<close> show ?thesis by simp
      next
        case False
        with j ih have "t + ?w + spanWidth ws j idx < av" by simp
        with tail [of j] j show ?thesis by simp
      qed
    qed
    ultimately show ?thesis using ih by auto
  qed
qed


lemma lastIndexClamped_less:
  "scrollableColumns s \<noteq> [] \<Longrightarrow> lastIndexClamped s a = Some k \<Longrightarrow>
   k < int (length (scrollableColumns s))"
  by (cases "firstIndex a"; cases "lastIndex a")
     (auto simp: lastIndexClamped_def Let_def split: if_splits)

subsection \<open>The first column offset\<close>

text \<open>
  Claim C3, as amended.  In a computation that is not degenerate:  when the
  anchor's last index is defined after clamping, the first column offset stored
  is the minimum of \<open>0\<close> and the available width less the width accumulated by
  the walk; with a non-negative last index and a positive available width that
  accumulated width is the measured width of the viewport span.  When the last
  index stays undefined and the first index is given, the first column offset
  stored is the anchor's first offset, whatever its value.  For five columns of
  width 100, an available width of 250 and the anchor with last index 4, the
  viewport span runs from 2 to 5 and the first column offset is \<open>-50\<close>.
\<close>

theorem first_column_offset:
  assumes "availableScrollWidth s \<noteq> 0" and "scrollableColumns s \<noteq> []"
  shows "(lastIndexClamped s a = Some k \<longrightarrow>
            (\<exists>s' r. calculateRenderedColumnRange s a = Inr (s', r) \<and>
               firstColumnOffset s' =
                 min (availableScrollWidth s -
                      snd (snd (walkViewport s (int (length (scrollableColumns s)))
                                  (availableScrollWidth s) True k k 0))) 0 \<and>
               (0 \<le> k \<and> 0 < availableScrollWidth s \<longrightarrow>
                  firstColumnOffset s' =
                    min (availableScrollWidth s -
                         spanWidth (scrollableColumns s) (firstViewportCol r) (endViewportCol r)) 0))) \<and>
         (lastIndexClamped s a2 = None \<and> firstIndex a2 = Some f \<longrightarrow>
            (\<exists>s' r. calculateRenderedColumnRange s a2 = Inr (s', r) \<and>
               firstColumnOffset s' = firstOffset a2)) \<and>
         (\<exists>s'. calculateRenderedColumnRange
                 (t\<lparr>availableScrollWidth := 250, scrollableColumns := [100, 100, 100, 100, 100]\<rparr>)
                 \<lparr>firstIndex = None, firstOffset = fo, lastIndex = Some 4\<rparr> =
               Inr (s', \<lparr>endBufferCol = 5, endViewportCol = 5, firstBufferCol = 2,
                         firstViewportCol = 2\<rparr>) \<and>
               firstColumnOffset s' = - 50)"
proof (intro conjI impI)
  let ?n = "int (length (scrollableColumns s))" and ?av = "availableScrollWidth s"
  assume k: "lastIndexClamped s a = Some k"
  obtain s1 e T where w: "walkViewport s ?n ?av True k k 0 = (s1, e, T)"
    using prod_cases3 by blast
  note c = calc_backward [OF assms k w]
  have "0 \<le> k \<and> 0 < ?av \<longrightarrow>
      T = spanWidth (scrollableColumns s) (min k e) (max k e + 1)"
  proof
    assume p: "0 \<le> k \<and> 0 < ?av"
    from lastIndexClamped_less [OF assms(2) k] have "k < ?n" .
    with walk_backward_spec [OF w _ refl, of ] p
    have "e \<le> k \<and> T = 0 + spanWidth (scrollableColumns s) e (k + 1)" by simp
    then have "min k e = e" "max k e = k" "T = spanWidth (scrollableColumns s) e (k + 1)"
      by auto
    then show "T = spanWidth (scrollableColumns s) (min k e) (max k e + 1)"
      by simp
  qed
  with c w show "\<exists>s' r. calculateRenderedColumnRange s a = Inr (s', r) \<and>
               firstColumnOffset s' = min (?av - snd (snd (walkViewport s ?n ?av True k k 0))) 0 \<and>
               (0 \<le> k \<and> 0 < ?av \<longrightarrow>
                  firstColumnOffset s' =
                    min (?av - spanWidth (scrollableColumns s) (firstViewportCol r)
                           (endViewportCol r)) 0)"
    by simp
next
  let ?n = "int (length (scrollableColumns s))" and ?av = "availableScrollWidth s"
  assume f: "lastIndexClamped s a2 = None \<and> firstIndex a2 = Some f"
  obtain s1 e T where w: "walkViewport s ?n ?av False f f (firstOffset a2) = (s1, e, T)"
    using prod_cases3 by blast
  from calc_forward [OF assms _ _ w] f
  show "\<exists>s' r. calculateRenderedColumnRange s a2 = Inr (s', r) \<and>
               firstColumnOffset s' = firstOffset a2"
    by simp
next
  show "\<exists>s'. calculateRenderedColumnRange
                 (t\<lparr>availableScrollWidth := 250, scrollableColumns := [100, 100, 100, 100, 100]\<rparr>)
                 \<lparr>firstIndex = None, firstOffset = fo, lastIndex = Some 4\<rparr> =
               Inr (s', \<lparr>endBufferCol = 5, endViewportCol = 5, firstBufferCol = 2,
                         firstViewportCol = 2\<rparr>) \<and>
               firstColumnOffset s' = - 50"
    using scenario_backward_range [of t fo] by simp
qed

theorem first_column_offset_witness:
  "availableScrollWidth (freshTable [100, 100, 100, 100, 100] 250 250) \<noteq> 0 \<and>
   scrollableColumns (freshTable [100, 100, 100, 100, 100] 250 250) \<noteq> [] \<and>
   lastIndexClamped (freshTable [100, 100, 100, 100, 100] 250 250)
     \<lparr>firstIndex = Some 7, firstOffset = 0, lastIndex = None\<rparr> = Some 4 \<and>
   (0::int) < availableScrollWidth (freshTable [100, 100, 100, 100, 100] 250 250) \<and>
   lastIndexClamped (freshTable [100, 100, 100, 100, 100] 250 250)
     \<lparr>firstIndex = Some 1, firstOffset = - 30, lastIndex = None\<rparr> = None \<and>
   (\<exists>s' r. calculateRenderedColumnRange (freshTable [100, 100, 100, 100, 100] 250 250)
             \<lparr>firstIndex = Some 7, firstOffset = 0, lastIndex = None\<rparr> = Inr (s', r) \<and>
           firstColumnOffset s' =
             min (250 - spanWidth [100, 100, 100, 100, 100] (firstViewportCol r) (endViewportCol r)) 0) \<and>
   (\<exists>s' r. calculateRenderedColumnRange (freshTable [100, 100, 100, 100, 100] 250 250)
             \<lparr>firstIndex = Some 1, firstOffset = - 30, lastIndex = None\<rparr> = Inr (s', r) \<and>
           firstColumnOffset s' = - 30)"
proof -
  let ?s = "freshTable [100, 100, 100, 100, 100] 250 250"
  let ?a = "\<lparr>firstIndex = Some 7, firstOffset = 0, lastIndex = None\<rparr>"
  let ?a2 = "\<lparr>firstIndex = Some 1, firstOffset = - 30, lastIndex = None\<rparr>"
  have h1: "availableScrollWidth ?s \<noteq> 0" and h2: "scrollableColumns ?s \<noteq> []"
    and h3: "(0::int) < availableScrollWidth ?s"
    and ws: "scrollableColumns ?s = [100, 100, 100, 100, 100]" "availableScrollWidth ?s = 250"
    by (simp_all add: freshTable_def)
  have h4: "lastIndexClamped ?s ?a = Some 4" and h5: "lastIndexClamped ?s ?a2 = None"
    by (simp_all add: lastIndexClamped_def freshTable_def)
  have h6: "firstIndex ?a2 = Some 1" by simp
  from first_column_offset [OF h1 h2, of ?a 4 ?a2 1 ?s 0] h3 h4 h5 h6
  have "(\<exists>s' r. calculateRenderedColumnRange ?s ?a = Inr (s', r) \<and>
           firstColumnOffset s' =
             min (availableScrollWidth ?s -
                  spanWidth (scrollableColumns ?s) (firstViewportCol r) (endViewportCol r)) 0)"
    and "(\<exists>s' r. calculateRenderedColumnRange ?s ?a2 = Inr (s', r) \<and>
           firstColumnOffset s' = firstOffset ?a2)"
    by auto
  with h1 h2 h3 h4 h5 show ?thesis by (simp add: ws)
qed

text \<open>
  The forward case does not imply a first offset of \<open>0\<close>: the forward anchor
  with first index 0 and first offset \<open>-30\<close> yields the first column offset
  \<open>-30\<close>.
\<close>

theorem forward_offset_counterexample:
  "lastIndexClamped (freshTable [100, 100, 100, 100, 100] 250 250)
     \<lparr>firstIndex = Some 0, firstOffset = - 30, lastIndex = None\<rparr> = None \<and>
   map_sum id snd
     (calculateRenderedColumnRange (freshTable [100, 100, 100, 100, 100] 250 250)
        \<lparr>firstIndex = Some 0, firstOffset = - 30, lastIndex = None\<rparr>) =
     Inr \<lparr>endBufferCol = 3, endViewportCol = 3, firstBufferCol = 0, firstViewportCol = 0\<rparr> \<and>
   firstColumnOffset (fst (projr
     (calculateRenderedColumnRange (freshTable [100, 100, 100, 100, 100] 250 250)
        \<lparr>firstIndex = Some 0, firstOffset = - 30, lastIndex = None\<rparr>))) = - 30 \<and>
   firstColumnOffset (fst (projr
     (calculateRenderedColumnRange (freshTable [100, 100, 100, 100, 100] 250 250)
        \<lparr>firstIndex = Some 0, firstOffset = - 30, lastIndex = None\<rparr>))) \<noteq> 0"
  by code_simp

subsection \<open>Anchoring backward, then forward\<close>




subsection \<open>The length of the columns to render\<close>

lemma replaceFurthest_None_inside:
  assumes "replaceFurthestValuePosition bs lo hi v = (None, bs')"
  shows "\<forall>t\<in>set bs. lo \<le> t \<and> t \<le> hi"
proof (cases bs)
  case Nil
  then show ?thesis by simp
next
  case (Cons b cs)
  let ?mn = "Min (set bs)" and ?mx = "Max (set bs)"
  have fin: "finite (set bs)" "set bs \<noteq> {}" using Cons by auto
  have "?mn \<in> set bs" "?mx \<in> set bs" using fin by (auto intro: Min_in Max_in)
  then have "getValuePosition bs ?mn \<noteq> None" "getValuePosition bs ?mx \<noteq> None"
    by (simp_all add: getValuePosition_None_iff)
  with assms Cons have "lo \<le> ?mn \<and> ?mx \<le> hi"
    by (auto simp: fold_min_Min fold_max_Max Let_def split: if_splits option.splits)
  then show ?thesis using fin by (meson Max_ge Min_le order_trans)
qed

lemma addColumnToBuffer_capacity:
  assumes add: "addColumnToBuffer c bs lo hi m = (p, bs')"
    and d: "distinct bs" and len: "int (length bs) \<le> m"
    and c: "lo \<le> c" "c < hi" and w: "hi - lo \<le> m"
  shows "distinct bs' \<and> int (length bs') \<le> m"
proof (cases "getValuePosition bs c")
  case (Some q)
  with add d len show ?thesis by (simp add: addColumnToBuffer_def)
next
  case None
  then have notin: "c \<notin> set bs" by (simp add: getValuePosition_None_iff)
  show ?thesis
  proof (cases "m \<le> int (length bs)")
    case False
    with add None notin d show ?thesis
      by (auto simp: addColumnToBuffer_def getSize_def getNewPositionForValue_def)
  next
    case True
    obtain r bs1 where rf: "replaceFurthestValuePosition bs lo (hi - 1) c = (r, bs1)"
      by (cases "replaceFurthestValuePosition bs lo (hi - 1) c")
    show ?thesis
    proof (cases r)
      case (Some q)
      with rf replaceFurthest_Some [of bs lo "hi - 1" c q bs1]
      have "bs1 = bs[q := c]" by blast
      with add None True rf Some notin d len show ?thesis
        by (auto simp: addColumnToBuffer_def getSize_def distinct_list_update)
    next
      case none: None
      with rf replaceFurthest_None_inside [of bs lo "hi - 1" c bs1]
      have "\<forall>t\<in>set bs. lo \<le> t \<and> t \<le> hi - 1" by simp
      with notin have "set bs \<subseteq> {lo..hi - 1} - {c}" by auto
      then have "card (set bs) \<le> card ({lo..hi - 1} - {c})"
        by (intro card_mono) auto
      also have "\<dots> = card {lo..hi - 1} - 1" using c by simp
      finally have "int (length bs) \<le> hi - lo - 1"
        using d c by (simp add: distinct_card)
      with True w have False by simp
      then show ?thesis ..
    qed
  qed
qed

lemma offsetsLoop_capacity:
  "offsetsLoop tree lo hi m j bs r cols offs = (bs', cols', offs') \<Longrightarrow>
   distinct bs \<Longrightarrow> int (length bs) \<le> m \<Longrightarrow> lo \<le> j \<Longrightarrow> hi - lo \<le> m \<Longrightarrow>
   distinct bs' \<and> int (length bs') \<le> m"
proof (induction tree lo hi m j bs r cols offs rule: offsetsLoop.induct)
  case (1 tree lo hi m j bs r cols offs)
  show ?case
  proof (cases "j < hi")
    case False
    with "1.prems" show ?thesis by (simp add: offsetsLoop.simps [of tree lo hi m j])
  next
    case True
    obtain p bs1 where add: "addColumnToBuffer j bs lo hi m = (p, bs1)"
      by (cases "addColumnToBuffer j bs lo hi m")
    from "1.prems"(1) True add
    have rec: "offsetsLoop tree lo hi m (j + 1) bs1 (r + treeGet tree j)
                 (arraySet cols p j) (offs(j \<mapsto> r)) = (bs', cols', offs')"
      by (simp add: offsetsLoop.simps [of tree lo hi m j])
    from addColumnToBuffer_capacity [OF add "1.prems"(2,3,4) True "1.prems"(5)]
    have inv: "distinct bs1" "int (length bs1) \<le> m" by auto
    from "1.prems"(4) have "lo \<le> j + 1" by simp
    from "1.IH" [OF True add [symmetric] rec inv this "1.prems"(5)] show ?thesis .
  qed
qed

lemma window_within_span:
  "rangeOrdered r \<Longrightarrow> windowEnd r v - windowStart r v \<le> endBufferCol r - firstBufferCol r \<and>
     windowStart r v \<le> windowEnd r v"
  by (auto simp: rangeOrdered_def windowStart_def windowEnd_def)

text \<open>
  Claim C8, as amended.  After a call of \<^verbatim>\<open>computeRenderedColumnOffsets\<close> the
  length of \<^verbatim>\<open>columnsToRender\<close> is at most the tracked count of the slot
  allocator.  For an ordered range, the number of its slots that hold a column is
  at most the buffer span size, and its length is at most the buffer span size
  when, before the call, the allocator tracked distinct columns and no more of
  them than the buffer span size.
\<close>

theorem columns_to_render_bound:
  "length (columnsToRender (computeRenderedColumnOffsets s r v))
     \<le> getSize (columnBufferSet (computeRenderedColumnOffsets s r v)) \<and>
   (rangeOrdered r \<longrightarrow>
      int (assignedSlots (columnsToRender (computeRenderedColumnOffsets s r v)))
        \<le> endBufferCol r - firstBufferCol r) \<and>
   (rangeOrdered r \<and> distinct (columnBufferSet s) \<and>
    int (getSize (columnBufferSet s)) \<le> endBufferCol r - firstBufferCol r \<longrightarrow>
      int (length (columnsToRender (computeRenderedColumnOffsets s r v)))
        \<le> endBufferCol r - firstBufferCol r)"
proof (cases "endBufferCol r - firstBufferCol r = 0")
  case True
  then show ?thesis by (simp add: computeRenderedColumnOffsets_def assignedSlots_def)
next
  case False
  let ?lo = "windowStart r v" and ?hi = "windowEnd r v"
  let ?m = "endBufferCol r - firstBufferCol r"
  from pass_unfold [OF False, of s v] obtain bs cols offs where
    loop: "offsetsLoop (columnOffsetIntervalTree s) ?lo ?hi ?m ?lo (columnBufferSet s)
       (sumUntil (columnOffsetIntervalTree s) ?lo) [] Map.empty = (bs, cols, offs)"
    and res: "computeRenderedColumnOffsets s r v =
       s\<lparr>columnBufferSet := bs, columnsToRender := cols, columnOffsets := offs\<rparr>" by blast
  from offsetsLoop_length [OF loop] have l: "length cols \<le> length bs" by simp
  have a: "rangeOrdered r \<longrightarrow> int (assignedSlots cols) \<le> ?m"
  proof
    assume ro: "rangeOrdered r"
    from offsetsLoop_assigned [OF loop]
    have "int (assignedSlots cols) \<le> max 0 (?hi - ?lo)" by (simp add: assignedSlots_def)
    with window_within_span [OF ro, of v] show "int (assignedSlots cols) \<le> ?m" by simp
  qed
  have b: "rangeOrdered r \<and> distinct (columnBufferSet s) \<and>
      int (getSize (columnBufferSet s)) \<le> ?m \<longrightarrow> int (length cols) \<le> ?m"
  proof
    assume h: "rangeOrdered r \<and> distinct (columnBufferSet s) \<and>
      int (getSize (columnBufferSet s)) \<le> ?m"
    then have "distinct (columnBufferSet s)" "int (length (columnBufferSet s)) \<le> ?m"
      "?hi - ?lo \<le> ?m"
      using window_within_span [of r v] by (simp_all add: getSize_def)
    from offsetsLoop_capacity [OF loop this(1,2) _ this(3)]
    have "int (length bs) \<le> ?m" by simp
    with l show "int (length cols) \<le> ?m" by simp
  qed
  from l a b res show ?thesis by (simp add: getSize_def)
qed

theorem columns_to_render_bound_witness:
  "rangeOrdered \<lparr>endBufferCol = 4, endViewportCol = 4, firstBufferCol = 2, firstViewportCol = 2\<rparr> \<and>
   distinct (columnBufferSet ((freshTable [100, 100, 100, 100, 100] 250 250)
                \<lparr>columnBufferSet := [0, 1]\<rparr>)) \<and>
   columnsToRender (computeRenderedColumnOffsets
       ((freshTable [100, 100, 100, 100, 100] 250 250)\<lparr>columnBufferSet := [0, 1]\<rparr>)
       \<lparr>endBufferCol = 4, endViewportCol = 4, firstBufferCol = 2, firstViewportCol = 2\<rparr> False)
     = [Some 2, Some 3] \<and>
   int (length (columnsToRender (computeRenderedColumnOffsets
       ((freshTable [100, 100, 100, 100, 100] 250 250)\<lparr>columnBufferSet := [0, 1]\<rparr>)
       \<lparr>endBufferCol = 4, endViewportCol = 4, firstBufferCol = 2, firstViewportCol = 2\<rparr> False)))
     \<le> 4 - 2"
proof -
  let ?s = "(freshTable [100, 100, 100, 100, 100] 250 250)\<lparr>columnBufferSet := [0, 1]\<rparr>"
  let ?r = "\<lparr>endBufferCol = 4, endViewportCol = 4, firstBufferCol = 2, firstViewportCol = 2\<rparr>"
  have h1: "rangeOrdered ?r" by (simp add: rangeOrdered_def)
  have h2: "distinct (columnBufferSet ?s)" by simp
  have h3: "int (getSize (columnBufferSet ?s)) \<le> endBufferCol ?r - firstBufferCol ?r"
    by (simp add: getSize_def)
  have v: "columnsToRender (computeRenderedColumnOffsets ?s ?r False) = [Some 2, Some 3]"
    by code_simp
  from columns_to_render_bound [of ?s ?r False] h1 h2 h3
  have "int (length (columnsToRender (computeRenderedColumnOffsets ?s ?r False)))
     \<le> endBufferCol ?r - firstBufferCol ?r" by blast
  with h1 h2 v show ?thesis by simp
qed

text \<open>
  The length can exceed the buffer span size.  After a pass over the columns 0 to
  2 of a fresh table, column 2 owns slot 2; a pass over the span of column 2
  alone, of size 1, writes it at slot 2 again and leaves an array of length 3.
\<close>

theorem columns_to_render_counterexample:
  "columnsToRender
     (computeRenderedColumnOffsets
        (computeRenderedColumnOffsets (freshTable [50, 50, 300] 250 150)
           \<lparr>endBufferCol = 3, endViewportCol = 3, firstBufferCol = 0, firstViewportCol = 0\<rparr> False)
        \<lparr>endBufferCol = 3, endViewportCol = 3, firstBufferCol = 2, firstViewportCol = 2\<rparr> False)
     = [None, None, Some 2] \<and>
   \<not> int (length (columnsToRender
     (computeRenderedColumnOffsets
        (computeRenderedColumnOffsets (freshTable [50, 50, 300] 250 150)
           \<lparr>endBufferCol = 3, endViewportCol = 3, firstBufferCol = 0, firstViewportCol = 0\<rparr> False)
        \<lparr>endBufferCol = 3, endViewportCol = 3, firstBufferCol = 2, firstViewportCol = 2\<rparr> False)))
     \<le> endBufferCol \<lparr>endBufferCol = 3, endViewportCol = 3, firstBufferCol = 2, firstViewportCol = 2\<rparr>
        - firstBufferCol \<lparr>endBufferCol = 3, endViewportCol = 3, firstBufferCol = 2, firstViewportCol = 2\<rparr>"
  by code_simp

end
